theory Spec2Isabelle
  imports Main "HOL-Library.Word"
begin

section \<open>Strings of code points\<close>

text \<open>
  The source works on \<^verbatim>\<open>std::u32string\<close>: a sequence of \<^verbatim>\<open>char32_t\<close>, an unsigned
  32-bit code unit. A string is the list of its code points; comparison of two
  characters is the unsigned comparison of words.
\<close>

type_synonym char32_t = "32 word"
type_synonym u32string = "char32_t list"

text \<open>\<^verbatim>\<open>const char32_t gap_char = U'\<diamond>'\<close>: the code point U+22C4.\<close>

definition gap_char :: char32_t where
  "gap_char = 0x22C4"

section \<open>Levenshtein distance\<close>

text \<open>
  \<^verbatim>\<open>long\<close> values are modelled by \<open>int\<close>: every value the function computes lies
  between 0 and the longer length plus one, so no overflow occurs. Indices are \<open>nat\<close>.
  \<^verbatim>\<open>std::min({a, b, c})\<close> on integers is the least of the three.
\<close>

definition min3 :: "int \<Rightarrow> int \<Rightarrow> int \<Rightarrow> int" where
  "min3 a b c = min (min a b) c"

text \<open>
  The inner loop \<^verbatim>\<open>for (long c = 0; c < len2; ++c)\<close>. The three elements of the braced
  list are evaluated left to right: the first reads the old \<^verbatim>\<open>prev_dist\<close> and stores the
  old \<^verbatim>\<open>dist[c + 1]\<close> into it, the second reads \<^verbatim>\<open>dist[c]\<close>, the third \<^verbatim>\<open>dist[c + 1]\<close>,
  which is assigned afterwards.
\<close>

function levenshtein_cols ::
  "u32string \<Rightarrow> u32string \<Rightarrow> nat \<Rightarrow> nat \<Rightarrow> int \<Rightarrow> int list \<Rightarrow> int list" where
  "levenshtein_cols str1 str2 r c prev_dist dist =
     (if c < length str2 then
        levenshtein_cols str1 str2 r (c + 1) (dist ! (c + 1))
          (dist[c + 1 :=
             min3 (prev_dist + (if str1 ! r = str2 ! c then 0 else 1))
                  (dist ! c + 1)
                  (dist ! (c + 1) + 1)])
      else dist)"
  by pat_completeness auto
termination
  by (relation "measure (\<lambda>(str1, str2, r, c, prev_dist, dist). length str2 - c)") auto

declare levenshtein_cols.simps [simp del]

text \<open>The outer loop \<^verbatim>\<open>for (long r = 0; r < len1; ++r)\<close>, with \<^verbatim>\<open>prev_dist = r\<close>.\<close>

function levenshtein_rows :: "u32string \<Rightarrow> u32string \<Rightarrow> nat \<Rightarrow> int list \<Rightarrow> int list" where
  "levenshtein_rows str1 str2 r dist =
     (if r < length str1 then
        levenshtein_rows str1 str2 (r + 1) (levenshtein_cols str1 str2 r 0 (int r) dist)
      else dist)"
  by pat_completeness auto
termination
  by (relation "measure (\<lambda>(str1, str2, r, dist). length str1 - r)") auto

declare levenshtein_rows.simps [simp del]

text \<open>\<^verbatim>\<open>std::iota(dist.begin(), dist.end(), 0)\<close> on a vector of \<^verbatim>\<open>len2 + 1\<close> elements.\<close>

definition iota :: "nat \<Rightarrow> int list" where
  "iota n = map int [0..<n]"

definition levenshtein :: "u32string \<Rightarrow> u32string \<Rightarrow> int" where
  "levenshtein str1 str2 =
     (let len1 = length str1; len2 = length str2 in
      if len1 = 0 then int len2
      else if len2 = 0 then int len1
      else levenshtein_rows str1 str2 0 (iota (len2 + 1)) ! len2)"

section \<open>All pairs, ranked\<close>

text \<open>
  A result is \<^verbatim>\<open>std::tuple<long, long, long>\<close>: the distance and the two indices.
\<close>

type_synonym pair_result = "int \<times> nat \<times> nat"

function levenshtein_all_cols ::
  "u32string list \<Rightarrow> nat \<Rightarrow> nat \<Rightarrow> pair_result list \<Rightarrow> pair_result list" where
  "levenshtein_all_cols strings r c results =
     (if c < length strings then
        levenshtein_all_cols strings r (c + 1)
          (results @ [(levenshtein (strings ! r) (strings ! c), r, c)])
      else results)"
  by pat_completeness auto
termination
  by (relation "measure (\<lambda>(strings, r, c, results). length strings - c)") auto

declare levenshtein_all_cols.simps [simp del]

text \<open>
  The outer loop tests \<^verbatim>\<open>r < len - 1\<close> in signed arithmetic, so an empty list gives
  the bound \<open>-1\<close> and no iteration.
\<close>

function levenshtein_all_rows ::
  "u32string list \<Rightarrow> nat \<Rightarrow> pair_result list \<Rightarrow> pair_result list" where
  "levenshtein_all_rows strings r results =
     (if int r < int (length strings) - 1 then
        levenshtein_all_rows strings (r + 1) (levenshtein_all_cols strings r (r + 1) results)
      else results)"
  by pat_completeness auto
termination
  by (relation "measure (\<lambda>(strings, r, results). length strings - r)") auto

declare levenshtein_all_rows.simps [simp del]

text \<open>
  \<^verbatim>\<open>std::stable_sort\<close> with the comparison \<^verbatim>\<open>get<0>(t1) < get<0>(t2)\<close> is the stable
  sort on the first component: \<^const>\<open>sort_key\<close> inserts each element before the first
  element with a key that is not smaller, from the right end of the list.
\<close>

definition levenshtein_all :: "u32string list \<Rightarrow> pair_result list" where
  "levenshtein_all strings = sort_key fst (levenshtein_all_rows strings 0 [])"

section \<open>The progressive aligner\<close>

subsection \<open>Single-precision arithmetic\<close>

text \<open>
  Scores are \<^verbatim>\<open>float\<close>. The aligner uses five things of that type: the constant 0.0,
  \<^verbatim>\<open>std::numeric_limits<float>::lowest()\<close>, addition, the comparison \<^verbatim>\<open><\<close> and the
  equality \<^verbatim>\<open>==\<close>. They are parameters of the model, so that what is proved of the
  aligner for every such structure holds of the IEEE operations as well, whatever they
  do on rounding, infinities and NaN.
\<close>

record 'f float_ops =
  f_zero :: 'f
  f_lowest :: 'f
  f_add :: "'f \<Rightarrow> 'f \<Rightarrow> 'f"
  f_less :: "'f \<Rightarrow> 'f \<Rightarrow> bool"
  f_eq :: "'f \<Rightarrow> 'f \<Rightarrow> bool"

text \<open>
  \<^verbatim>\<open>std::max\<close> of a braced list returns the first greatest element: it keeps a
  candidate and replaces it by a later element when the candidate is \<^verbatim>\<open><\<close> that element.
\<close>

definition max2 :: "'f float_ops \<Rightarrow> 'f \<Rightarrow> 'f \<Rightarrow> 'f" where
  "max2 ops a b = (if f_less ops a b then b else a)"

definition max3 :: "'f float_ops \<Rightarrow> 'f \<Rightarrow> 'f \<Rightarrow> 'f \<Rightarrow> 'f" where
  "max3 ops a b c = max2 ops (max2 ops a b) c"

subsection \<open>Trace cells and errors\<close>

datatype TraceDir = dir_none | dir_diag | dir_up | dir_left

record 'f Trace =
  val :: 'f
  up :: 'f
  left :: 'f
  dir :: TraceDir

text \<open>The constructor \<^verbatim>\<open>Trace(): val(0.0), up(0.0), left(0.0), dir(none)\<close>.\<close>

definition Trace0 :: "'f float_ops \<Rightarrow> 'f Trace" where
  "Trace0 ops = \<lparr>val = f_zero ops, up = f_zero ops, left = f_zero ops, dir = dir_none\<rparr>"

type_synonym 'f TraceMatrix = "'f Trace list list"

text \<open>
  Both failures of \<^verbatim>\<open>align_all\<close> throw \<^verbatim>\<open>std::invalid_argument\<close>; they differ in the
  message only. The message is modelled by what it says: the fixed sentence
  "You must enter at least one string.", or the sentence built around the lookup key
  that the matrix lacks.
\<close>

datatype message = at_least_one_string | missing_from_matrix u32string

datatype error = invalid_argument message

type_synonym 'f weights = "u32string \<rightharpoonup> 'f"

subsection \<open>Scoring one column against a character\<close>

text \<open>
  The key of a pair: the two characters, swapped when the first is greater than the
  second.
\<close>

definition lookup_key :: "char32_t \<Rightarrow> char32_t \<Rightarrow> u32string" where
  "lookup_key results_char strings_char =
     (if results_char > strings_char then [strings_char, results_char]
      else [results_char, strings_char])"

text \<open>
  The loop \<^verbatim>\<open>for (size_t k = 0; k < results.size(); ++k)\<close> inside a cell: rows with a
  gap in column \<open>r - 1\<close> are skipped, a missing key throws, and
  \<^verbatim>\<open>value > diagonal\<close> is \<^verbatim>\<open>diagonal < value\<close>.
\<close>

function best_score ::
  "'f float_ops \<Rightarrow> u32string list \<Rightarrow> u32string \<Rightarrow> 'f weights \<Rightarrow> nat \<Rightarrow> nat \<Rightarrow> nat \<Rightarrow> 'f
   \<Rightarrow> error + 'f" where
  "best_score ops results str weight r c k diagonal =
     (if k < length results then
        if results ! k ! (r - 1) = gap_char then
          best_score ops results str weight r c (k + 1) diagonal
        else
          (case weight (lookup_key (results ! k ! (r - 1)) (str ! (c - 1))) of
             None \<Rightarrow>
               Inl (invalid_argument
                      (missing_from_matrix (lookup_key (results ! k ! (r - 1)) (str ! (c - 1)))))
           | Some value \<Rightarrow>
               best_score ops results str weight r c (k + 1)
                 (if f_less ops diagonal value then value else diagonal))
      else Inr diagonal)"
  by pat_completeness auto
termination
  by (relation "measure (\<lambda>(ops, results, str, weight, r, c, k, diagonal). length results - k)")
     auto

declare best_score.simps [simp del]

subsection \<open>Building the grid\<close>

text \<open>The two boundary loops; \<open>g\<close> starts at \<open>gap\<close> and grows by \<open>skew\<close>.\<close>

function init_col ::
  "'f float_ops \<Rightarrow> 'f \<Rightarrow> nat \<Rightarrow> nat \<Rightarrow> 'f \<Rightarrow> 'f TraceMatrix \<Rightarrow> 'f TraceMatrix" where
  "init_col ops skew rows r g trace =
     (if r \<le> rows then
        init_col ops skew rows (r + 1) (f_add ops g skew)
          (trace[r := (trace ! r)[0 := \<lparr>val = g, up = g, left = g, dir = dir_up\<rparr>]])
      else trace)"
  by pat_completeness auto
termination
  by (relation "measure (\<lambda>(ops, skew, rows, r, g, trace). rows + 1 - r)") auto

declare init_col.simps [simp del]

function init_row ::
  "'f float_ops \<Rightarrow> 'f \<Rightarrow> nat \<Rightarrow> nat \<Rightarrow> 'f \<Rightarrow> 'f TraceMatrix \<Rightarrow> 'f TraceMatrix" where
  "init_row ops skew cols c g trace =
     (if c \<le> cols then
        init_row ops skew cols (c + 1) (f_add ops g skew)
          (trace[0 := (trace ! 0)[c := \<lparr>val = g, up = g, left = g, dir = dir_left\<rparr>]])
      else trace)"
  by pat_completeness auto
termination
  by (relation "measure (\<lambda>(ops, skew, cols, c, g, trace). cols + 1 - c)") auto

declare init_row.simps [simp del]

text \<open>
  One interior cell, from the cell above, the cell to the left, the value of the cell
  on the diagonal and the best substitution score \<open>d\<close> of the column.
\<close>

definition fill_cell ::
  "'f float_ops \<Rightarrow> 'f \<Rightarrow> 'f \<Rightarrow> 'f Trace \<Rightarrow> 'f Trace \<Rightarrow> 'f \<Rightarrow> 'f \<Rightarrow> 'f Trace" where
  "fill_cell ops gap skew cell_up cell_left diag_val d =
     (let cell_u = max2 ops (f_add ops (up cell_up) skew) (f_add ops (val cell_up) gap);
          cell_l = max2 ops (f_add ops (left cell_left) skew) (f_add ops (val cell_left) gap);
          diagonal = f_add ops d diag_val;
          cell_v = max3 ops diagonal cell_u cell_l
      in \<lparr>val = cell_v, up = cell_u, left = cell_l,
          dir = (if f_eq ops cell_v diagonal then dir_diag
                 else if f_eq ops cell_v cell_u then dir_up
                 else dir_left)\<rparr>)"

function fill_cols ::
  "'f float_ops \<Rightarrow> u32string list \<Rightarrow> u32string \<Rightarrow> 'f weights \<Rightarrow> 'f \<Rightarrow> 'f \<Rightarrow> nat \<Rightarrow> nat
   \<Rightarrow> 'f TraceMatrix \<Rightarrow> error + 'f TraceMatrix" where
  "fill_cols ops results str weight gap skew r c trace =
     (if c \<le> length str then
        (case best_score ops results str weight r c 0 (f_lowest ops) of
           Inl e \<Rightarrow> Inl e
         | Inr d \<Rightarrow>
             fill_cols ops results str weight gap skew r (c + 1)
               (trace[r := (trace ! r)[c :=
                  fill_cell ops gap skew (trace ! (r - 1) ! c) (trace ! r ! (c - 1))
                    (val (trace ! (r - 1) ! (c - 1))) d]]))
      else Inr trace)"
  by pat_completeness auto
termination
  by (relation "measure (\<lambda>(ops, results, str, weight, gap, skew, r, c, trace).
                   length str + 1 - c)") auto

declare fill_cols.simps [simp del]

function fill_rows ::
  "'f float_ops \<Rightarrow> u32string list \<Rightarrow> u32string \<Rightarrow> 'f weights \<Rightarrow> 'f \<Rightarrow> 'f \<Rightarrow> nat
   \<Rightarrow> 'f TraceMatrix \<Rightarrow> error + 'f TraceMatrix" where
  "fill_rows ops results str weight gap skew r trace =
     (if r \<le> length (results ! 0) then
        (case fill_cols ops results str weight gap skew r 1 trace of
           Inl e \<Rightarrow> Inl e
         | Inr trace' \<Rightarrow> fill_rows ops results str weight gap skew (r + 1) trace')
      else Inr trace)"
  by pat_completeness auto
termination
  by (relation "measure (\<lambda>(ops, results, str, weight, gap, skew, r, trace).
                   length (results ! 0) + 1 - r)") auto

declare fill_rows.simps [simp del]

text \<open>The grid of one round: allocation, the two boundaries, the interior.\<close>

definition build_trace ::
  "'f float_ops \<Rightarrow> u32string list \<Rightarrow> u32string \<Rightarrow> 'f weights \<Rightarrow> 'f \<Rightarrow> 'f
   \<Rightarrow> error + 'f TraceMatrix" where
  "build_trace ops results str weight gap skew =
     (let rows = length (results ! 0);
          cols = length str;
          trace = replicate (rows + 1) (replicate (cols + 1) (Trace0 ops));
          trace = init_col ops skew rows 1 gap trace;
          trace = init_row ops skew cols 1 gap trace
      in fill_rows ops results str weight gap skew 1 trace)"

subsection \<open>Trace-back\<close>

text \<open>
  The variables of the loop: the signed indices \<open>r\<close> and \<open>c\<close>, the rows
  \<^verbatim>\<open>new_results\<close> and the string \<^verbatim>\<open>new_string\<close>.
\<close>

type_synonym tb_state = "int \<times> int \<times> u32string list \<times> u32string"

text \<open>
  One iteration of \<^verbatim>\<open>while (true)\<close>; \<open>None\<close> is the \<^verbatim>\<open>break\<close>. Each of the three
  branches appends one character to every row and one to the new string.
\<close>

definition traceback_step ::
  "'f TraceMatrix \<Rightarrow> u32string list \<Rightarrow> u32string \<Rightarrow> tb_state \<Rightarrow> tb_state option" where
  "traceback_step trace results str st =
     (case st of (r, c, new_results, new_string) \<Rightarrow>
        let cell = trace ! nat r ! nat c in
        if dir cell = dir_none then None
        else if dir cell = dir_diag then
          Some (r - 1, c - 1,
                map (\<lambda>k. new_results ! k @ [results ! k ! nat (r - 1)]) [0..<length results],
                new_string @ [str ! nat (c - 1)])
        else if dir cell = dir_up then
          Some (r - 1, c,
                map (\<lambda>k. new_results ! k @ [results ! k ! nat (r - 1)]) [0..<length results],
                new_string @ [gap_char])
        else
          Some (r, c - 1,
                map (\<lambda>k. new_results ! k @ [gap_char]) [0..<length results],
                new_string @ [str ! nat (c - 1)]))"

text \<open>The loop may not return: \<open>None\<close> is the run that never reaches a \<^verbatim>\<open>break\<close>.\<close>

partial_function (option) traceback ::
  "'f TraceMatrix \<Rightarrow> u32string list \<Rightarrow> u32string \<Rightarrow> tb_state \<Rightarrow> tb_state option" where
  "traceback trace results str st =
     (case traceback_step trace results str st of
        None \<Rightarrow> Some st
      | Some st' \<Rightarrow> traceback trace results str st')"

declare traceback.simps [code]

text \<open>The state after \<open>n\<close> iterations, when none of them was the \<^verbatim>\<open>break\<close>.\<close>

fun traceback_iter ::
  "nat \<Rightarrow> 'f TraceMatrix \<Rightarrow> u32string list \<Rightarrow> u32string \<Rightarrow> tb_state \<Rightarrow> tb_state option" where
  "traceback_iter 0 trace results str st = Some st"
| "traceback_iter (Suc n) trace results str st =
     (case traceback_step trace results str st of
        None \<Rightarrow> None
      | Some st' \<Rightarrow> traceback_iter n trace results str st')"

subsection \<open>One round and the whole run\<close>

text \<open>
  The body of \<^verbatim>\<open>for (size_t s = 1; s < strings.size(); ++s)\<close>: build the grid, walk
  back from \<open>(rows, cols)\<close>, append the new string and reverse every row.
\<close>

definition fold_in ::
  "'f float_ops \<Rightarrow> u32string list \<Rightarrow> u32string \<Rightarrow> 'f weights \<Rightarrow> 'f \<Rightarrow> 'f
   \<Rightarrow> (error + u32string list) option" where
  "fold_in ops results str weight gap skew =
     (case build_trace ops results str weight gap skew of
        Inl e \<Rightarrow> Some (Inl e)
      | Inr trace \<Rightarrow>
          (case traceback trace results str
                  (int (length (results ! 0)), int (length str),
                   replicate (length results) [], []) of
             None \<Rightarrow> None
           | Some (r, c, new_results, new_string) \<Rightarrow>
               Some (Inr (map rev (new_results @ [new_string])))))"

function align_loop ::
  "'f float_ops \<Rightarrow> u32string list \<Rightarrow> 'f weights \<Rightarrow> 'f \<Rightarrow> 'f \<Rightarrow> nat \<Rightarrow> u32string list
   \<Rightarrow> (error + u32string list) option" where
  "align_loop ops strings weight gap skew s results =
     (if s < length strings then
        (case fold_in ops results (strings ! s) weight gap skew of
           None \<Rightarrow> None
         | Some (Inl e) \<Rightarrow> Some (Inl e)
         | Some (Inr results') \<Rightarrow> align_loop ops strings weight gap skew (s + 1) results')
      else Some (Inr results))"
  by pat_completeness auto
termination
  by (relation "measure (\<lambda>(ops, strings, weight, gap, skew, s, results). length strings - s)")
     auto

declare align_loop.simps [simp del]

text \<open>
  The result is \<open>None\<close> when a trace-back never returns, \<open>Some (Inl e)\<close> when \<open>e\<close> is
  thrown, and \<open>Some (Inr rows)\<close> when the alignment \<open>rows\<close> is returned.
\<close>

definition align_all ::
  "'f float_ops \<Rightarrow> u32string list \<Rightarrow> 'f weights \<Rightarrow> 'f \<Rightarrow> 'f
   \<Rightarrow> (error + u32string list) option" where
  "align_all ops strings weight gap skew =
     (if length strings < 1 then Some (Inl (invalid_argument at_least_one_string))
      else align_loop ops strings weight gap skew 1 [strings ! 0])"

section \<open>Notions used to state the properties\<close>

text \<open>
  The tuple that the two loops of \<^const>\<open>levenshtein_all\<close> push for the pair \<open>(r, c)\<close>,
  and the order in which they push all of them: \<open>r\<close> ascending, and \<open>c\<close> ascending from
  \<open>r + 1\<close> for each \<open>r\<close>.
\<close>

definition pair_of :: "u32string list \<Rightarrow> nat \<Rightarrow> nat \<Rightarrow> pair_result" where
  "pair_of strings r c = (levenshtein (strings ! r) (strings ! c), r, c)"

definition enumeration :: "u32string list \<Rightarrow> pair_result list" where
  "enumeration strings =
     concat (map (\<lambda>r. map (pair_of strings r) [r + 1..<length strings])
               [0..<length strings - 1])"

text \<open>Row-major order on the indices of two tuples.\<close>

definition enumerated_before :: "pair_result \<Rightarrow> pair_result \<Rightarrow> bool" where
  "enumerated_before a b =
     (fst (snd a) < fst (snd b) \<or> (fst (snd a) = fst (snd b) \<and> snd (snd a) < snd (snd b)))"

definition grid_shape :: "'f TraceMatrix \<Rightarrow> nat \<Rightarrow> nat \<Rightarrow> bool" where
  "grid_shape trace rows cols =
     (length trace = rows + 1 \<and> (\<forall>r \<le> rows. length (trace ! r) = cols + 1))"

definition cell_filled ::
  "'f float_ops \<Rightarrow> u32string list \<Rightarrow> u32string \<Rightarrow> 'f weights \<Rightarrow> 'f \<Rightarrow> 'f
   \<Rightarrow> 'f TraceMatrix \<Rightarrow> nat \<Rightarrow> nat \<Rightarrow> bool" where
  "cell_filled ops results str weight gap skew trace r c =
     (case best_score ops results str weight r c 0 (f_lowest ops) of
        Inl e \<Rightarrow> False
      | Inr d \<Rightarrow>
          trace ! r ! c =
            fill_cell ops gap skew (trace ! (r - 1) ! c) (trace ! r ! (c - 1))
              (val (trace ! (r - 1) ! (c - 1))) d)"

definition dirs_ok :: "'f TraceMatrix \<Rightarrow> nat \<Rightarrow> nat \<Rightarrow> bool" where
  "dirs_ok trace rows cols =
     (dir (trace ! 0 ! 0) = dir_none \<and>
      (\<forall>r. 1 \<le> r \<and> r \<le> rows \<longrightarrow> dir (trace ! r ! 0) = dir_up) \<and>
      (\<forall>c. 1 \<le> c \<and> c \<le> cols \<longrightarrow> dir (trace ! 0 ! c) = dir_left) \<and>
      (\<forall>r c. 1 \<le> r \<and> r \<le> rows \<and> 1 \<le> c \<and> c \<le> cols \<longrightarrow>
         dir (trace ! r ! c) \<in> {dir_diag, dir_up, dir_left}))"

definition without_gaps :: "u32string \<Rightarrow> u32string" where
  "without_gaps s = filter (\<lambda>x. x \<noteq> gap_char) s"

definition int_ops :: "int float_ops" where
  "int_ops = \<lparr>f_zero = 0, f_lowest = - 340282346638528859811704183484516925440,
              f_add = (+), f_less = (<), f_eq = (=)\<rparr>"

definition matrix :: "int weights" where
  "matrix = [[0x41, 0x41] \<mapsto> 0, [0x43, 0x43] \<mapsto> 0, [0x47, 0x47] \<mapsto> 0,
             [0x41, 0x43] \<mapsto> -1, [0x41, 0x47] \<mapsto> -1, [0x43, 0x47] \<mapsto> -1]"



section \<open>Properties of the distance\<close>

text \<open>
  The rolling row never rewrites \<open>dist ! 0\<close>: it stays 0 in every sweep, while the
  classic recurrence has \<open>r + 1\<close> in the first column of row \<open>r + 1\<close>. From the third
  character of the first string on, the second candidate of the first cell is
  therefore too small.
\<close>

lemma levenshtein_cols_keeps_first:
  "levenshtein_cols str1 str2 r c prev_dist dist ! 0 = dist ! 0"
  by (induction str1 str2 r c prev_dist dist rule: levenshtein_cols.induct)
     (subst levenshtein_cols.simps, simp)

text \<open>
  C7 (symmetry of the distance). The code is not symmetric: the strings "ab" and "x" are
  at distance 1 in one order and at distance 2 in the other. The Levenshtein distance of
  the two is 2.
\<close>

theorem levenshtein_not_symmetric:
  "levenshtein [0x61, 0x62] [0x78] = 1 \<and> levenshtein [0x78] [0x61, 0x62] = 2"
  by code_simp

text \<open>
  C8 (strings without a common character are at distance the longer length). The strings
  "abc" and "x" have no character in common, the longer has length 3, and the code
  returns 1.
\<close>

theorem levenshtein_disjoint_short:
  "set [0x61, 0x62, 0x63 :: char32_t] \<inter> set [0x78] = {} \<and>
   levenshtein [0x61, 0x62, 0x63] [0x78] = 1 \<and>
   max (length [0x61, 0x62, 0x63 :: char32_t]) (length [0x78 :: char32_t]) = 3"
  by code_simp

text \<open>The fixture of the specification, "abc" against "xyz", does give 3.\<close>

lemma levenshtein_abc_xyz:
  "levenshtein [0x61, 0x62, 0x63] [0x78, 0x79, 0x7A] = 3"
  by code_simp

section \<open>Properties of the ranking\<close>

lemma levenshtein_all_cols_eq:
  "levenshtein_all_cols strings r c results =
     results @ map (pair_of strings r) [c..<length strings]"
proof (induction strings r c results rule: levenshtein_all_cols.induct)
  case (1 strings r c results)
  show ?case
  proof (cases "c < length strings")
    case True
    then have "[c..<length strings] = c # [c + 1..<length strings]"
      by (simp add: upt_conv_Cons)
    with True 1 show ?thesis
      by (subst levenshtein_all_cols.simps) (simp add: pair_of_def)
  next
    case False
    then show ?thesis
      by (subst levenshtein_all_cols.simps) simp
  qed
qed

lemma levenshtein_all_rows_eq:
  "levenshtein_all_rows strings r results =
     results @ concat (map (\<lambda>r. map (pair_of strings r) [r + 1..<length strings])
                         [r..<length strings - 1])"
proof (induction strings r results rule: levenshtein_all_rows.induct)
  case (1 strings r results)
  show ?case
  proof (cases "int r < int (length strings) - 1")
    case True
    then have "r < length strings - 1" by linarith
    then have "[r..<length strings - 1] = r # [r + 1..<length strings - 1]"
      by (simp add: upt_conv_Cons)
    with True 1 show ?thesis
      by (subst levenshtein_all_rows.simps) (simp add: levenshtein_all_cols_eq)
  next
    case False
    then have "\<not> r < length strings - 1" by linarith
    with False show ?thesis
      by (subst levenshtein_all_rows.simps) simp
  qed
qed

lemma levenshtein_all_eq: "levenshtein_all strings = sort_key fst (enumeration strings)"
  by (simp add: levenshtein_all_def enumeration_def levenshtein_all_rows_eq)

lemma triangle_step: "Suc m + (m + 1) * m div 2 = (m + 2) * (m + 1) div 2"
proof -
  have "even ((m + 1) * m)" by simp
  then obtain k where k: "(m + 1) * m = 2 * k" by (elim evenE)
  have "(m + 2) * (m + 1) = (m + 1) * m + 2 * Suc m" by simp
  with k have "(m + 2) * (m + 1) = 2 * (k + Suc m)" by simp
  with k show ?thesis by simp
qed

lemma length_levenshtein_all_rows:
  "length (levenshtein_all_rows strings r results) =
     length results + (length strings - r) * (length strings - r - 1) div 2"
proof (induction strings r results rule: levenshtein_all_rows.induct)
  case (1 strings r results)
  show ?case
  proof (cases "int r < int (length strings) - 1")
    case True
    then have "r + 2 \<le> length strings" by linarith
    then obtain k where "length strings = r + 2 + k" using le_Suc_ex by blast
    then obtain m where m: "length strings = r + m + 2" by (simp add: add.commute add.left_commute)
    from True 1 have "length (levenshtein_all_rows strings r results) =
        length results + (length strings - (r + 1)) +
        (length strings - (r + 1)) * (length strings - (r + 1) - 1) div 2"
      by (subst levenshtein_all_rows.simps) (simp add: levenshtein_all_cols_eq)
    also have "\<dots> = length results + (Suc m + (m + 1) * m div 2)"
      by (simp add: m)
    also have "\<dots> = length results + (m + 2) * (m + 1) div 2"
      by (simp only: triangle_step)
    finally show ?thesis by (simp add: m)
  next
    case False
    then have "length strings - r = 0 \<or> length strings - r - 1 = 0" by linarith
    then have "(length strings - r) * (length strings - r - 1) = 0" by auto
    with False show ?thesis
      by (subst levenshtein_all_rows.simps) simp
  qed
qed

lemma same_key_in_order:
  "(\<And>k. sorted_wrt R (filter (\<lambda>y. f y = k) xs)) \<Longrightarrow>
   sorted_wrt (\<lambda>a b. f a = f b \<longrightarrow> R a b) xs"
proof (induction xs)
  case Nil
  then show ?case by simp
next
  case (Cons x xs)
  have tail: "sorted_wrt R (filter (\<lambda>y. f y = k) xs)" for k
    using Cons.prems [of k] by (cases "f x = k") simp_all
  have "R x y" if "y \<in> set xs" "f x = f y" for y
    using Cons.prems [of "f x"] that by simp
  with Cons.IH tail show ?case by simp
qed

lemma fst_snd_pair_of [simp]: "fst (snd (pair_of strings r c)) = r"
  and snd_snd_pair_of [simp]: "snd (snd (pair_of strings r c)) = c"
  by (simp_all add: pair_of_def)

lemma sorted_block: "sorted_wrt enumerated_before (map (pair_of strings r) [a..<b])"
  by (simp add: sorted_wrt_map enumerated_before_def)

lemma sorted_blocks:
  "sorted_wrt enumerated_before
     (concat (map (\<lambda>r. map (pair_of strings r) [r + 1..<n]) [a..<b]))"
proof (induction b)
  case 0
  then show ?case by simp
next
  case (Suc b)
  show ?case
  proof (cases "a \<le> b")
    case True
    have "enumerated_before x y"
      if "x \<in> set (concat (map (\<lambda>r. map (pair_of strings r) [r + 1..<n]) [a..<b]))"
        and "y \<in> set (map (pair_of strings b) [b + 1..<n])" for x y
      using that by (auto simp: enumerated_before_def)
    with True Suc sorted_block [of strings b "b + 1" n] show ?thesis
      by (simp add: sorted_wrt_append)
  next
    case False
    then show ?thesis by simp
  qed
qed

lemma sorted_enumeration: "sorted_wrt enumerated_before (enumeration strings)"
  unfolding enumeration_def by (rule sorted_blocks)

lemma ties_in_enumeration_order:
  "sorted_wrt (\<lambda>a b. fst a = fst b \<longrightarrow> enumerated_before a b) (levenshtein_all strings)"
proof (rule same_key_in_order)
  fix k
  show "sorted_wrt enumerated_before (filter (\<lambda>y. fst y = k) (levenshtein_all strings))"
    by (simp add: levenshtein_all_eq sort_key_stable sorted_wrt_filter sorted_enumeration)
qed

text \<open>
  C5 (the ranking of all pairs). For \<open>n\<close> strings the result has \<open>n * (n - 1) div 2\<close>
  tuples, its distances never decrease along the list, and of two tuples with the same
  distance the one that comes first is the one that the loops enumerated first: its
  first index is smaller, or the first indices are equal and its second index is smaller.
\<close>

theorem levenshtein_all_ranked:
  "length (levenshtein_all strings) = length strings * (length strings - 1) div 2 \<and>
   sorted (map fst (levenshtein_all strings)) \<and>
   (\<forall>p q. p < q \<and> q < length (levenshtein_all strings) \<and>
      fst (levenshtein_all strings ! p) = fst (levenshtein_all strings ! q) \<longrightarrow>
      enumerated_before (levenshtein_all strings ! p) (levenshtein_all strings ! q))"
proof (intro conjI allI impI)
  show "length (levenshtein_all strings) = length strings * (length strings - 1) div 2"
    by (simp add: levenshtein_all_def length_levenshtein_all_rows)
  show "sorted (map fst (levenshtein_all strings))"
    by (simp add: levenshtein_all_def)
next
  fix p q
  assume "p < q \<and> q < length (levenshtein_all strings) \<and>
      fst (levenshtein_all strings ! p) = fst (levenshtein_all strings ! q)"
  with ties_in_enumeration_order [of strings]
  show "enumerated_before (levenshtein_all strings ! p) (levenshtein_all strings ! q)"
    by (simp add: sorted_wrt_iff_nth_less)
qed

theorem levenshtein_all_ranked_witness:
  "length (levenshtein_all [[0x61, 0x62, 0x63], [0x78], [0x61]]) = 3 \<and>
   (0::nat) < 1 \<and> 1 < length (levenshtein_all [[0x61, 0x62, 0x63], [0x78], [0x61]]) \<and>
   fst (levenshtein_all [[0x61, 0x62, 0x63], [0x78], [0x61]] ! 0) =
   fst (levenshtein_all [[0x61, 0x62, 0x63], [0x78], [0x61]] ! 1) \<and>
   enumerated_before (levenshtein_all [[0x61, 0x62, 0x63], [0x78], [0x61]] ! 0)
     (levenshtein_all [[0x61, 0x62, 0x63], [0x78], [0x61]] ! 1)"
proof -
  have run: "levenshtein_all [[0x61, 0x62, 0x63], [0x78], [0x61]] = [(1, 0, 1), (1, 0, 2), (1, 1, 2)]"
    by code_simp
  have len: "length (levenshtein_all [[0x61, 0x62, 0x63], [0x78], [0x61]]) =
      length [[0x61, 0x62, 0x63], [0x78], [0x61 :: char32_t]] *
      (length [[0x61, 0x62, 0x63], [0x78], [0x61 :: char32_t]] - 1) div 2"
    and ord: "\<And>p q. p < q \<and> q < length (levenshtein_all [[0x61, 0x62, 0x63], [0x78], [0x61]]) \<and>
      fst (levenshtein_all [[0x61, 0x62, 0x63], [0x78], [0x61]] ! p) =
      fst (levenshtein_all [[0x61, 0x62, 0x63], [0x78], [0x61]] ! q) \<Longrightarrow>
      enumerated_before (levenshtein_all [[0x61, 0x62, 0x63], [0x78], [0x61]] ! p)
        (levenshtein_all [[0x61, 0x62, 0x63], [0x78], [0x61]] ! q)"
    using levenshtein_all_ranked [of "[[0x61, 0x62, 0x63], [0x78], [0x61]]"] by blast+
  have "enumerated_before (levenshtein_all [[0x61, 0x62, 0x63], [0x78], [0x61]] ! 0)
        (levenshtein_all [[0x61, 0x62, 0x63], [0x78], [0x61]] ! 1)"
    by (rule ord) (simp add: run)
  with len show ?thesis by (simp add: run)
qed

lemma nth_grid_update:
  "r < length trace \<Longrightarrow> c < length (trace ! r) \<Longrightarrow>
   trace[r := (trace ! r)[c := x]] ! r' ! c' = (if r' = r \<and> c' = c then x else trace ! r' ! c')"
  by (cases "r' = r"; cases "c' = c") simp_all

lemma grid_shape_update:
  "grid_shape trace rows cols \<Longrightarrow> grid_shape (trace[r := (trace ! r)[c := x]]) rows cols"
proof -
  assume shape: "grid_shape trace rows cols"
  have "length (trace[r := (trace ! r)[c := x]] ! r') = cols + 1" if "r' \<le> rows" for r'
  proof (cases "r' = r")
    case True
    with that shape show ?thesis by (simp add: grid_shape_def)
  next
    case False
    with that shape show ?thesis by (simp add: grid_shape_def)
  qed
  with shape show ?thesis by (simp add: grid_shape_def)
qed

lemma grid_shape_replicate: "grid_shape (replicate (rows + 1) (replicate (cols + 1) x)) rows cols"
  unfolding grid_shape_def by (simp del: replicate.simps)

lemma grid_shapeD:
  "grid_shape trace rows cols \<Longrightarrow> r \<le> rows \<Longrightarrow> c \<le> cols \<Longrightarrow>
   r < length trace \<and> c < length (trace ! r)"
  by (simp add: grid_shape_def)

lemma init_col_shape:
  "grid_shape trace rows cols \<Longrightarrow> grid_shape (init_col ops skew rows r g trace) rows cols"
proof (induction ops skew rows r g trace rule: init_col.induct)
  case (1 ops skew rows r g trace)
  then show ?case
    by (subst init_col.simps) (simp add: grid_shape_update)
qed

lemma init_col_dir:
  "grid_shape trace rows cols \<Longrightarrow> r' \<le> rows \<Longrightarrow> c' \<le> cols \<Longrightarrow>
   dir (init_col ops skew rows r g trace ! r' ! c') =
     (if c' = 0 \<and> r \<le> r' then dir_up else dir (trace ! r' ! c'))"
proof (induction ops skew rows r g trace rule: init_col.induct)
  case (1 ops skew rows r g trace)
  show ?case
  proof (cases "r \<le> rows")
    case True
    with "1.prems" have "r < length trace" "0 < length (trace ! r)"
      by (simp_all add: grid_shape_def)
    then have cell: "trace[r := (trace ! r)[0 := x]] ! r' ! c' =
        (if r' = r \<and> c' = 0 then x else trace ! r' ! c')" for x
      by (rule nth_grid_update)
    have "dir (init_col ops skew rows r g trace ! r' ! c') =
        (if c' = 0 \<and> r + 1 \<le> r' then dir_up
         else dir (trace[r := (trace ! r)[0 := \<lparr>val = g, up = g, left = g, dir = dir_up\<rparr>]]
                     ! r' ! c'))"
      using True 1 by (subst init_col.simps) (simp add: grid_shape_update)
    then show ?thesis
      unfolding cell by auto
  next
    case False
    with "1.prems" show ?thesis
      by (subst init_col.simps) simp
  qed
qed

lemma init_row_shape:
  "grid_shape trace rows cols \<Longrightarrow> grid_shape (init_row ops skew cols c g trace) rows cols"
proof (induction ops skew cols c g trace rule: init_row.induct)
  case (1 ops skew cols c g trace)
  then show ?case
    by (subst init_row.simps) (simp add: grid_shape_update)
qed

lemma init_row_dir:
  "grid_shape trace rows cols \<Longrightarrow> r' \<le> rows \<Longrightarrow> c' \<le> cols \<Longrightarrow>
   dir (init_row ops skew cols c g trace ! r' ! c') =
     (if r' = 0 \<and> c \<le> c' then dir_left else dir (trace ! r' ! c'))"
proof (induction ops skew cols c g trace rule: init_row.induct)
  case (1 ops skew cols c g trace)
  show ?case
  proof (cases "c \<le> cols")
    case True
    with "1.prems" have "0 < length trace" "c < length (trace ! 0)"
      by (simp_all add: grid_shape_def)
    then have cell: "trace[0 := (trace ! 0)[c := x]] ! r' ! c' =
        (if r' = 0 \<and> c' = c then x else trace ! r' ! c')" for x
      by (rule nth_grid_update)
    have "dir (init_row ops skew cols c g trace ! r' ! c') =
        (if r' = 0 \<and> c + 1 \<le> c' then dir_left
         else dir (trace[0 := (trace ! 0)[c := \<lparr>val = g, up = g, left = g, dir = dir_left\<rparr>]]
                     ! r' ! c'))"
      using True 1 by (subst init_row.simps) (simp add: grid_shape_update)
    then show ?thesis
      unfolding cell by auto
  next
    case False
    with "1.prems" show ?thesis
      by (subst init_row.simps) simp
  qed
qed

lemma cell_filled_cong:
  "trace' ! r ! c = trace ! r ! c \<Longrightarrow> trace' ! (r - 1) ! c = trace ! (r - 1) ! c \<Longrightarrow>
   trace' ! r ! (c - 1) = trace ! r ! (c - 1) \<Longrightarrow>
   trace' ! (r - 1) ! (c - 1) = trace ! (r - 1) ! (c - 1) \<Longrightarrow>
   cell_filled ops results str weight gap skew trace' r c =
   cell_filled ops results str weight gap skew trace r c"
  by (simp only: cell_filled_def)

lemma fill_cols_cells:
  assumes "fill_cols ops results str weight gap skew r c trace = Inr trace'"
    and "grid_shape trace rows (length str)" and "1 \<le> r" and "r \<le> rows" and "1 \<le> c"
  shows "grid_shape trace' rows (length str) \<and>
         (\<forall>r' c'. r' \<le> rows \<and> c' \<le> length str \<longrightarrow>
            (if r' = r \<and> c \<le> c' then cell_filled ops results str weight gap skew trace' r c'
             else trace' ! r' ! c' = trace ! r' ! c'))"
  using assms
proof (induction ops results str weight gap skew r c trace rule: fill_cols.induct)
  case (1 ops results str weight gap skew r c trace)
  show ?case
  proof (cases "c \<le> length str")
    case False
    with "1.prems"(1) have "trace' = trace"
      by (subst (asm) fill_cols.simps) simp
    with False "1.prems"(2) show ?thesis by auto
  next
    case True
    obtain d where d: "best_score ops results str weight r c 0 (f_lowest ops) = Inr d"
      using "1.prems"(1) True
      by (subst (asm) fill_cols.simps) (auto split: sum.splits)
    define cell where "cell = fill_cell ops gap skew (trace ! (r - 1) ! c) (trace ! r ! (c - 1))
                    (val (trace ! (r - 1) ! (c - 1))) d"
    define trace1 where "trace1 = trace[r := (trace ! r)[c := cell]]"
    have rec: "fill_cols ops results str weight gap skew r (c + 1) trace1 = Inr trace'"
      using "1.prems"(1) True d
      by (subst (asm) fill_cols.simps) (simp add: trace1_def cell_def)
    have shape1: "grid_shape trace1 rows (length str)"
      unfolding trace1_def using "1.prems"(2) by (rule grid_shape_update)
    have in_range: "r < length trace" "c < length (trace ! r)"
      using "1.prems"(2,4) True by (simp_all add: grid_shape_def)
    have at1: "trace1 ! r' ! c' = (if r' = r \<and> c' = c then cell else trace ! r' ! c')" for r' c'
      unfolding trace1_def using in_range by (rule nth_grid_update)
    have IH: "grid_shape trace' rows (length str) \<and>
         (\<forall>r' c'. r' \<le> rows \<and> c' \<le> length str \<longrightarrow>
            (if r' = r \<and> c + 1 \<le> c' then cell_filled ops results str weight gap skew trace' r c'
             else trace' ! r' ! c' = trace1 ! r' ! c'))"
      using "1.IH" [OF True d rec [unfolded trace1_def cell_def]] shape1 "1.prems"(3,4)
      by (simp add: trace1_def cell_def)
    then have later: "cell_filled ops results str weight gap skew trace' r c'"
      if "c + 1 \<le> c'" "c' \<le> length str" for c'
      using that "1.prems"(4) by auto
    from IH have same1: "trace' ! r' ! c' = trace1 ! r' ! c'"
      if "r' \<le> rows" "c' \<le> length str" "\<not> (r' = r \<and> c + 1 \<le> c')" for r' c'
      using that by auto
    have neq: "r - 1 \<noteq> r" "c - 1 \<noteq> c" "r - 1 \<le> rows" "c - 1 \<le> length str"
      "\<not> c + 1 \<le> c" "\<not> c + 1 \<le> c - 1"
      using "1.prems"(3,4,5) True by arith+
    have here: "cell_filled ops results str weight gap skew trace' r c"
    proof -
      have a: "trace' ! r ! c = cell"
        using same1 [of r c] "1.prems"(4) True neq by (simp add: at1)
      have b: "trace' ! (r - 1) ! c = trace ! (r - 1) ! c"
        using same1 [of "r - 1" c] True neq by (simp add: at1)
      have c: "trace' ! r ! (c - 1) = trace ! r ! (c - 1)"
        using same1 [of r "c - 1"] "1.prems"(4) neq by (simp add: at1)
      have e: "trace' ! (r - 1) ! (c - 1) = trace ! (r - 1) ! (c - 1)"
        using same1 [of "r - 1" "c - 1"] neq by (simp add: at1)
      show ?thesis
        unfolding cell_filled_def d a b c e cell_def by simp
    qed
    have "if r' = r \<and> c \<le> c' then cell_filled ops results str weight gap skew trace' r c'
          else trace' ! r' ! c' = trace ! r' ! c'"
      if range: "r' \<le> rows" "c' \<le> length str" for r' c'
    proof (cases "r' = r \<and> c \<le> c'")
      case True
      then show ?thesis
        using here later [of c'] range by (cases "c' = c") auto
    next
      case False
      then have "trace' ! r' ! c' = trace1 ! r' ! c'"
        using same1 [of r' c'] range by auto
      with False show ?thesis by (auto simp: at1)
    qed
    with IH show ?thesis by blast
  qed
qed

lemma fill_rows_cells:
  assumes "fill_rows ops results str weight gap skew r trace = Inr trace'"
    and "grid_shape trace (length (results ! 0)) (length str)" and "1 \<le> r"
  shows "grid_shape trace' (length (results ! 0)) (length str) \<and>
         (\<forall>r' c'. r' \<le> length (results ! 0) \<and> c' \<le> length str \<longrightarrow>
            (if r \<le> r' \<and> 1 \<le> c' then cell_filled ops results str weight gap skew trace' r' c'
             else trace' ! r' ! c' = trace ! r' ! c'))"
  using assms
proof (induction ops results str weight gap skew r trace rule: fill_rows.induct)
  case (1 ops results str weight gap skew r trace)
  show ?case
  proof (cases "r \<le> length (results ! 0)")
    case False
    with "1.prems"(1) have "trace' = trace"
      by (subst (asm) fill_rows.simps) simp
    with False "1.prems"(2) show ?thesis by auto
  next
    case True
    obtain trace1 where row: "fill_cols ops results str weight gap skew r 1 trace = Inr trace1"
      and rec: "fill_rows ops results str weight gap skew (r + 1) trace1 = Inr trace'"
      using "1.prems"(1) True
      by (subst (asm) fill_rows.simps) (auto split: sum.splits)
    from fill_cols_cells [OF row "1.prems"(2) "1.prems"(3) True]
    have shape1: "grid_shape trace1 (length (results ! 0)) (length str)"
      and cells1: "\<And>r' c'. r' \<le> length (results ! 0) \<Longrightarrow> c' \<le> length str \<Longrightarrow>
            (if r' = r \<and> 1 \<le> c' then cell_filled ops results str weight gap skew trace1 r c'
             else trace1 ! r' ! c' = trace ! r' ! c')"
      by auto
    from "1.IH" [OF True row rec shape1]
    have shape': "grid_shape trace' (length (results ! 0)) (length str)"
      and cells': "\<And>r' c'. r' \<le> length (results ! 0) \<Longrightarrow> c' \<le> length str \<Longrightarrow>
            (if r + 1 \<le> r' \<and> 1 \<le> c' then cell_filled ops results str weight gap skew trace' r' c'
             else trace' ! r' ! c' = trace1 ! r' ! c')"
      by auto
    have "if r \<le> r' \<and> 1 \<le> c' then cell_filled ops results str weight gap skew trace' r' c'
          else trace' ! r' ! c' = trace ! r' ! c'"
      if range: "r' \<le> length (results ! 0)" "c' \<le> length str" for r' c'
    proof (cases "r \<le> r' \<and> 1 \<le> c'")
      case False
      with cells' [of r' c'] cells1 [of r' c'] range show ?thesis by auto
    next
      case inside: True
      show ?thesis
      proof (cases "r' = r")
        case False
        with inside cells' [of r' c'] range show ?thesis by auto
      next
        case True
        have "cell_filled ops results str weight gap skew trace1 r c'"
          using cells1 [of r c'] range inside True by simp
        moreover have "cell_filled ops results str weight gap skew trace' r c' =
            cell_filled ops results str weight gap skew trace1 r c'"
        proof (rule cell_filled_cong)
          have above: "trace' ! r'' ! c'' = trace1 ! r'' ! c''"
            if "r'' \<le> r" "c'' \<le> c'" for r'' c''
          proof -
            from that range True have "r'' \<le> length (results ! 0)" "c'' \<le> length str"
              "\<not> r + 1 \<le> r''"
              by arith+
            with cells' [of r'' c''] show ?thesis by auto
          qed
          show "trace' ! r ! c' = trace1 ! r ! c'"
            by (rule above) simp_all
          show "trace' ! (r - 1) ! c' = trace1 ! (r - 1) ! c'"
            by (rule above) simp_all
          show "trace' ! r ! (c' - 1) = trace1 ! r ! (c' - 1)"
            by (rule above) simp_all
          show "trace' ! (r - 1) ! (c' - 1) = trace1 ! (r - 1) ! (c' - 1)"
            by (rule above) simp_all
        qed
        ultimately show ?thesis using inside True by simp
      qed
    qed
    with shape' show ?thesis by blast
  qed
qed

lemma dir_fill_cell:
  "dir (fill_cell ops gap skew cell_up cell_left diag_val d) \<in> {dir_diag, dir_up, dir_left}"
  by (simp add: fill_cell_def Let_def)

lemma cell_filled_dir:
  "cell_filled ops results str weight gap skew trace r c \<Longrightarrow>
   dir (trace ! r ! c) \<in> {dir_diag, dir_up, dir_left}"
proof -
  assume "cell_filled ops results str weight gap skew trace r c"
  then obtain d where "trace ! r ! c =
      fill_cell ops gap skew (trace ! (r - 1) ! c) (trace ! r ! (c - 1))
        (val (trace ! (r - 1) ! (c - 1))) d"
    by (auto simp: cell_filled_def split: sum.splits)
  then show ?thesis
    by (simp only: dir_fill_cell)
qed

lemma build_trace_cells:
  assumes "build_trace ops results str weight gap skew = Inr trace"
  shows "grid_shape trace (length (results ! 0)) (length str) \<and>
         (\<forall>r c. r \<le> length (results ! 0) \<and> c \<le> length str \<longrightarrow>
            (if 1 \<le> r \<and> 1 \<le> c then cell_filled ops results str weight gap skew trace r c
             else dir (trace ! r ! c) =
               (if r = 0 \<and> 1 \<le> c then dir_left else if c = 0 \<and> 1 \<le> r then dir_up
                else dir_none)))"
proof -
  define rows where "rows = length (results ! 0)"
  define cols where "cols = length str"
  define t0 :: "'a TraceMatrix" where "t0 = replicate (rows + 1) (replicate (cols + 1) (Trace0 ops))"
  define t1 where "t1 = init_col ops skew rows 1 gap t0"
  define t2 where "t2 = init_row ops skew cols 1 gap t1"
  have s0: "grid_shape t0 rows cols"
    unfolding t0_def by (rule grid_shape_replicate)
  then have s1: "grid_shape t1 rows cols"
    unfolding t1_def by (rule init_col_shape)
  then have s2: "grid_shape t2 rows cols"
    unfolding t2_def by (rule init_row_shape)
  have d0: "dir (t0 ! r ! c) = dir_none" if "r \<le> rows" "c \<le> cols" for r c
    using that unfolding t0_def by (simp add: Trace0_def del: replicate.simps)
  have d2: "dir (t2 ! r ! c) =
      (if r = 0 \<and> 1 \<le> c then dir_left else if c = 0 \<and> 1 \<le> r then dir_up else dir_none)"
    if "r \<le> rows" "c \<le> cols" for r c
  proof -
    have "dir (t2 ! r ! c) = (if r = 0 \<and> 1 \<le> c then dir_left else dir (t1 ! r ! c))"
      unfolding t2_def using s1 that by (rule init_row_dir)
    moreover have "dir (t1 ! r ! c) = (if c = 0 \<and> 1 \<le> r then dir_up else dir (t0 ! r ! c))"
      unfolding t1_def using s0 that by (rule init_col_dir)
    ultimately show ?thesis
      using d0 [OF that] by simp
  qed
  have fill: "fill_rows ops results str weight gap skew 1 t2 = Inr trace"
    using assms by (simp add: build_trace_def Let_def t2_def t1_def t0_def rows_def cols_def)
  from fill_rows_cells [OF fill s2 [unfolded rows_def cols_def]]
  have shape: "grid_shape trace rows cols"
    and cells: "\<And>r c. r \<le> rows \<Longrightarrow> c \<le> cols \<Longrightarrow>
            (if 1 \<le> r \<and> 1 \<le> c then cell_filled ops results str weight gap skew trace r c
             else trace ! r ! c = t2 ! r ! c)"
    by (auto simp: rows_def cols_def)
  have "if 1 \<le> r \<and> 1 \<le> c then cell_filled ops results str weight gap skew trace r c
        else dir (trace ! r ! c) =
          (if r = 0 \<and> 1 \<le> c then dir_left else if c = 0 \<and> 1 \<le> r then dir_up else dir_none)"
    if "r \<le> rows" "c \<le> cols" for r c
    using cells [OF that] d2 [OF that] by (auto split: if_splits)
  with shape show ?thesis
    unfolding rows_def cols_def by blast
qed

lemma build_trace_dirs_ok:
  assumes "build_trace ops results str weight gap skew = Inr trace"
  shows "dirs_ok trace (length (results ! 0)) (length str)"
proof -
  from build_trace_cells [OF assms]
  have cells: "\<And>r c. r \<le> length (results ! 0) \<Longrightarrow> c \<le> length str \<Longrightarrow>
            (if 1 \<le> r \<and> 1 \<le> c then cell_filled ops results str weight gap skew trace r c
             else dir (trace ! r ! c) =
               (if r = 0 \<and> 1 \<le> c then dir_left else if c = 0 \<and> 1 \<le> r then dir_up
                else dir_none))"
    by blast
  have "dir (trace ! 0 ! 0) = dir_none"
    using cells [of 0 0] by simp
  moreover have "dir (trace ! r ! 0) = dir_up" if "1 \<le> r" "r \<le> length (results ! 0)" for r
    using cells [of r 0] that by simp
  moreover have "dir (trace ! 0 ! c) = dir_left" if "1 \<le> c" "c \<le> length str" for c
    using cells [of 0 c] that by simp
  moreover have "dir (trace ! r ! c) \<in> {dir_diag, dir_up, dir_left}"
    if "1 \<le> r" "r \<le> length (results ! 0)" "1 \<le> c" "c \<le> length str" for r c
  proof -
    from cells [of r c] that have "cell_filled ops results str weight gap skew trace r c"
      by simp
    then show ?thesis by (rule cell_filled_dir)
  qed
  ultimately show ?thesis
    unfolding dirs_ok_def by blast
qed

lemma traceback_step_origin:
  "dirs_ok trace rows cols \<Longrightarrow> traceback_step trace results str (0, 0, nr, ns) = None"
  by (simp add: traceback_step_def dirs_ok_def)

lemma dirs_ok_left:
  "dirs_ok trace rows cols \<Longrightarrow> 1 \<le> c \<Longrightarrow> c \<le> cols \<Longrightarrow> dir (trace ! 0 ! c) = dir_left"
  and dirs_ok_up:
  "dirs_ok trace rows cols \<Longrightarrow> 1 \<le> r \<Longrightarrow> r \<le> rows \<Longrightarrow> dir (trace ! r ! 0) = dir_up"
  and dirs_ok_inside:
  "dirs_ok trace rows cols \<Longrightarrow> 1 \<le> r \<Longrightarrow> r \<le> rows \<Longrightarrow> 1 \<le> c \<Longrightarrow> c \<le> cols \<Longrightarrow>
   dir (trace ! r ! c) \<in> {dir_diag, dir_up, dir_left}"
  unfolding dirs_ok_def by blast+

lemma traceback_step_moves:
  assumes "dirs_ok trace rows cols"
    and "0 \<le> r" and "r \<le> int rows" and "0 \<le> c" and "c \<le> int cols" and "(r, c) \<noteq> (0, 0)"
  shows "\<exists>r' c' nr' ns'.
           traceback_step trace results str (r, c, nr, ns) = Some (r', c', nr', ns') \<and>
           0 \<le> r' \<and> r' \<le> r \<and> 0 \<le> c' \<and> c' \<le> c \<and> r' + c' < r + c"
proof -
  consider "r = 0" "1 \<le> c" | "c = 0" "1 \<le> r" | "1 \<le> r" "1 \<le> c"
    using assms(2,4,6) by fastforce
  then show ?thesis
  proof cases
    case 1
    then have "1 \<le> nat c" "nat c \<le> cols"
      using assms(5) by linarith+
    then have "dir (trace ! 0 ! nat c) = dir_left"
      using assms(1) by (intro dirs_ok_left)
    with 1 show ?thesis
      by (simp add: traceback_step_def)
  next
    case 2
    then have "1 \<le> nat r" "nat r \<le> rows"
      using assms(3) by linarith+
    then have "dir (trace ! nat r ! 0) = dir_up"
      using assms(1) by (intro dirs_ok_up)
    with 2 show ?thesis
      by (simp add: traceback_step_def)
  next
    case 3
    then have "1 \<le> nat r" "nat r \<le> rows" "1 \<le> nat c" "nat c \<le> cols"
      using assms(3,5) by linarith+
    then have "dir (trace ! nat r ! nat c) \<in> {dir_diag, dir_up, dir_left}"
      using assms(1) by (intro dirs_ok_inside)
    with 3 show ?thesis
      by (auto simp: traceback_step_def)
  qed
qed

lemma traceback_run:
  assumes ok: "dirs_ok trace rows cols"
    and step: "\<And>r c nr ns st'. P (r, c, nr, ns) \<Longrightarrow> 0 \<le> r \<Longrightarrow> r \<le> int rows \<Longrightarrow>
                 0 \<le> c \<Longrightarrow> c \<le> int cols \<Longrightarrow>
                 traceback_step trace results str (r, c, nr, ns) = Some st' \<Longrightarrow> P st'"
  shows "0 \<le> r \<Longrightarrow> r \<le> int rows \<Longrightarrow> 0 \<le> c \<Longrightarrow> c \<le> int cols \<Longrightarrow> P (r, c, nr, ns) \<Longrightarrow>
         \<exists>n nr' ns'. n \<le> nat r + nat c \<and>
           traceback_iter n trace results str (r, c, nr, ns) = Some (0, 0, nr', ns') \<and>
           traceback trace results str (r, c, nr, ns) = Some (0, 0, nr', ns') \<and>
           P (0, 0, nr', ns')"
proof (induction "nat r + nat c" arbitrary: r c nr ns rule: less_induct)
  case less
  show ?case
  proof (cases "(r, c) = (0, 0)")
    case True
    then have "traceback_step trace results str (r, c, nr, ns) = None"
      using traceback_step_origin [OF ok] by simp
    then have "traceback trace results str (r, c, nr, ns) = Some (r, c, nr, ns)"
      by (subst traceback.simps) simp
    moreover have "traceback_iter 0 trace results str (r, c, nr, ns) = Some (r, c, nr, ns)"
      by simp
    ultimately show ?thesis
      using True less.prems(5) by (intro exI [of _ 0]) auto
  next
    case False
    from traceback_step_moves [OF ok less.prems(1-4) False]
    obtain r' c' nr' ns' where
      st: "traceback_step trace results str (r, c, nr, ns) = Some (r', c', nr', ns')"
      and bounds: "0 \<le> r'" "r' \<le> r" "0 \<le> c'" "c' \<le> c" "r' + c' < r + c"
      by blast
    have P': "P (r', c', nr', ns')"
      using step [OF less.prems(5) less.prems(1-4) st] .
    have smaller: "nat r' + nat c' < nat r + nat c"
      using bounds by linarith
    from less.hyps [OF smaller _ _ _ _ P'] bounds less.prems(2,4)
    obtain n nr'' ns'' where n: "n \<le> nat r' + nat c'"
      and iter: "traceback_iter n trace results str (r', c', nr', ns') = Some (0, 0, nr'', ns'')"
      and run: "traceback trace results str (r', c', nr', ns') = Some (0, 0, nr'', ns'')"
      and fin: "P (0, 0, nr'', ns'')"
      by fastforce
    have "traceback_iter (Suc n) trace results str (r, c, nr, ns) = Some (0, 0, nr'', ns'')"
      using st iter by simp
    moreover have "traceback trace results str (r, c, nr, ns) = Some (0, 0, nr'', ns'')"
      using st run by (subst traceback.simps) simp
    moreover have "Suc n \<le> nat r + nat c"
      using n smaller by linarith
    ultimately show ?thesis
      using fin by blast
  qed
qed

lemma traceback_step_cases:
  assumes ok: "dirs_ok trace rows cols"
    and range: "0 \<le> r" "r \<le> int rows" "0 \<le> c" "c \<le> int cols"
    and st: "traceback_step trace results str (r, c, nr, ns) = Some st'"
  obtains
    (diag) "1 \<le> r" "1 \<le> c"
      "st' = (r - 1, c - 1,
              map (\<lambda>k. nr ! k @ [results ! k ! nat (r - 1)]) [0..<length results],
              ns @ [str ! nat (c - 1)])"
  | (up) "1 \<le> r"
      "st' = (r - 1, c,
              map (\<lambda>k. nr ! k @ [results ! k ! nat (r - 1)]) [0..<length results],
              ns @ [gap_char])"
  | (left) "1 \<le> c"
      "st' = (r, c - 1, map (\<lambda>k. nr ! k @ [gap_char]) [0..<length results],
              ns @ [str ! nat (c - 1)])"
proof -
  have origin: "(r, c) \<noteq> (0, 0)"
    using st traceback_step_origin [OF ok] by auto
  have row0: "dir (trace ! nat r ! nat c) = dir_left" if "r = 0"
  proof -
    from that origin range have "1 \<le> nat c" "nat c \<le> cols" by auto
    with ok that show ?thesis by (simp add: dirs_ok_left)
  qed
  have col0: "dir (trace ! nat r ! nat c) = dir_up" if "c = 0"
  proof -
    from that origin range have "1 \<le> nat r" "nat r \<le> rows" by auto
    with ok that show ?thesis by (simp add: dirs_ok_up)
  qed
  show ?thesis
  proof (cases "dir (trace ! nat r ! nat c)")
    case dir_none
    with st show ?thesis by (simp add: traceback_step_def)
  next
    case dir_diag
    with row0 col0 have "r \<noteq> 0" "c \<noteq> 0" by auto
    with range have "1 \<le> r" "1 \<le> c" by linarith+
    with dir_diag st diag show ?thesis by (simp add: traceback_step_def)
  next
    case dir_up
    with row0 have "r \<noteq> 0" by auto
    with range have "1 \<le> r" by linarith
    with dir_up st up show ?thesis by (simp add: traceback_step_def)
  next
    case dir_left
    with col0 have "c \<noteq> 0" by auto
    with range have "1 \<le> c" by linarith
    with dir_left st left show ?thesis by (simp add: traceback_step_def)
  qed
qed

lemma fold_in_total: "\<exists>y. fold_in ops results str weight gap skew = Some y"
proof (cases "build_trace ops results str weight gap skew")
  case (Inl e)
  then show ?thesis by (simp add: fold_in_def)
next
  case (Inr trace)
  from traceback_run [OF build_trace_dirs_ok [OF Inr],
      where P = "\<lambda>_. True" and r = "int (length (results ! 0))" and c = "int (length str)"]
  obtain nr ns where "traceback trace results str
      (int (length (results ! 0)), int (length str), replicate (length results) [], []) =
      Some (0, 0, nr, ns)"
    by fastforce
  with Inr show ?thesis by (simp add: fold_in_def)
qed

lemma fold_in_invariant:
  fixes ops :: "'f float_ops"
  assumes res: "fold_in ops results str weight gap skew = Some (Inr results')"
    and init: "P (int (length (results ! 0)), int (length str), replicate (length results) [], [])"
    and step: "\<And>(trace :: 'f TraceMatrix) r c nr ns st'.
                 dirs_ok trace (length (results ! 0)) (length str) \<Longrightarrow> P (r, c, nr, ns) \<Longrightarrow>
                 0 \<le> r \<Longrightarrow> r \<le> int (length (results ! 0)) \<Longrightarrow>
                 0 \<le> c \<Longrightarrow> c \<le> int (length str) \<Longrightarrow>
                 traceback_step trace results str (r, c, nr, ns) = Some st' \<Longrightarrow> P st'"
  shows "\<exists>nr ns. results' = map rev (nr @ [ns]) \<and> P (0, 0, nr, ns)"
proof (cases "build_trace ops results str weight gap skew")
  case (Inl e)
  with res show ?thesis by (simp add: fold_in_def)
next
  case (Inr trace)
  have ok: "dirs_ok trace (length (results ! 0)) (length str)"
    using Inr by (rule build_trace_dirs_ok)
  have "\<exists>n nr' ns'. n \<le> nat (int (length (results ! 0))) + nat (int (length str)) \<and>
      traceback_iter n trace results str
        (int (length (results ! 0)), int (length str), replicate (length results) [], []) =
        Some (0, 0, nr', ns') \<and>
      traceback trace results str
        (int (length (results ! 0)), int (length str), replicate (length results) [], []) =
        Some (0, 0, nr', ns') \<and>
      P (0, 0, nr', ns')"
    by (rule traceback_run [where P = P, OF ok step [OF ok] _ _ _ _ init]) simp_all
  then obtain nr ns where run: "traceback trace results str
      (int (length (results ! 0)), int (length str), replicate (length results) [], []) =
      Some (0, 0, nr, ns)" and fin: "P (0, 0, nr, ns)"
    by blast
  from res Inr run have "results' = map rev (nr @ [ns])"
    by (simp add: fold_in_def)
  with fin show ?thesis by blast
qed

lemma without_gaps_snoc_rev:
  "without_gaps (rev (xs @ [x])) =
     (if x = gap_char then without_gaps (rev xs) else x # without_gaps (rev xs))"
  by (simp add: without_gaps_def)

lemma without_gaps_drop_pred:
  assumes "1 \<le> r" and "r \<le> int (length xs)"
  shows "without_gaps (drop (nat (r - 1)) xs) =
     (if xs ! nat (r - 1) = gap_char then without_gaps (drop (nat r) xs)
      else xs ! nat (r - 1) # without_gaps (drop (nat r) xs))"
proof -
  from assms have "nat (r - 1) < length xs" and "Suc (nat (r - 1)) = nat r"
    by linarith+
  then have "drop (nat (r - 1)) xs = xs ! nat (r - 1) # drop (nat r) xs"
    using Cons_nth_drop_Suc [of "nat (r - 1)" xs] by simp
  then show ?thesis
    by (simp add: without_gaps_def)
qed

lemma fold_in_without_gaps:
  fixes ops :: "'f float_ops"
  assumes res: "fold_in ops results str weight gap skew = Some (Inr results')"
    and rows: "\<forall>k<length results. length (results ! k) = length (results ! 0)"
  shows "length results' = length results + 1 \<and>
         (\<forall>k<length results. without_gaps (results' ! k) = without_gaps (results ! k)) \<and>
         without_gaps (results' ! length results) = without_gaps str"
proof -
  define P :: "tb_state \<Rightarrow> bool" where
    "P = (\<lambda>(r, c, nr, ns). length nr = length results \<and>
            (\<forall>k<length results.
               without_gaps (rev (nr ! k)) = without_gaps (drop (nat r) (results ! k))) \<and>
            without_gaps (rev ns) = without_gaps (drop (nat c) str))"
  have init: "P (int (length (results ! 0)), int (length str), replicate (length results) [], [])"
    using rows by (simp add: P_def)
  have step: "P st'"
    if ok: "dirs_ok trace (length (results ! 0)) (length str)"
      and inv: "P (r, c, nr, ns)"
      and range: "0 \<le> r" "r \<le> int (length (results ! 0))" "0 \<le> c" "c \<le> int (length str)"
      and st: "traceback_step trace results str (r, c, nr, ns) = Some st'"
    for trace :: "'f TraceMatrix" and r c nr ns st'
  proof -
    from inv have len: "length nr = length results"
      and old: "\<And>k. k < length results \<Longrightarrow>
                  without_gaps (rev (nr ! k)) = without_gaps (drop (nat r) (results ! k))"
      and new: "without_gaps (rev ns) = without_gaps (drop (nat c) str)"
      by (simp_all add: P_def)
    have consume_row: "without_gaps (rev (nr ! k @ [results ! k ! nat (r - 1)])) =
        without_gaps (drop (nat (r - 1)) (results ! k))"
      if "k < length results" "1 \<le> r" for k
    proof -
      from that range rows have "r \<le> int (length (results ! k))" by simp
      with that show ?thesis
        by (simp only: without_gaps_snoc_rev without_gaps_drop_pred old)
    qed
    have consume_str: "without_gaps (rev (ns @ [str ! nat (c - 1)])) =
        without_gaps (drop (nat (c - 1)) str)" if "1 \<le> c"
      using that range
      by (simp only: without_gaps_snoc_rev without_gaps_drop_pred new)
    have pad: "without_gaps (rev (xs @ [gap_char])) = without_gaps (rev xs)" for xs
      by (simp add: without_gaps_def)
    from ok range st show ?thesis
    proof (cases rule: traceback_step_cases)
      case diag
      then show ?thesis
        by (simp add: P_def consume_row consume_str del: rev_append)
    next
      case up
      then show ?thesis
        using new by (simp add: P_def consume_row pad del: rev_append)
    next
      case left
      then show ?thesis
        using old by (simp add: P_def consume_str pad del: rev_append)
    qed
  qed
  have "\<exists>nr ns. results' = map rev (nr @ [ns]) \<and> P (0, 0, nr, ns)"
  proof (rule fold_in_invariant [where P = P, OF res init])
    fix trace :: "'f TraceMatrix" and r c nr ns st'
    assume "dirs_ok trace (length (results ! 0)) (length str)" "P (r, c, nr, ns)"
      "0 \<le> r" "r \<le> int (length (results ! 0))" "0 \<le> c" "c \<le> int (length str)"
      "traceback_step trace results str (r, c, nr, ns) = Some st'"
    then show "P st'" by (rule step)
  qed
  then obtain nr ns where out: "results' = map rev (nr @ [ns])" and fin: "P (0, 0, nr, ns)"
    by blast
  from fin have len: "length nr = length results"
    and old: "\<And>k. k < length results \<Longrightarrow> without_gaps (rev (nr ! k)) = without_gaps (results ! k)"
    and new: "without_gaps (rev ns) = without_gaps str"
    by (simp_all add: P_def)
  have "results' ! k = rev (nr ! k)" if "k < length results" for k
    using that len by (simp add: out nth_append)
  moreover have "results' ! length results = rev ns"
    using len by (simp add: out nth_append)
  ultimately show ?thesis
    using old new len by (simp add: out)
qed

lemma column_extend:
  assumes len: "\<forall>k<n. length (nr ! k) = length ns"
    and old: "\<forall>j<length ns. (\<exists>k<n. nr ! k ! j \<noteq> gap_char) \<or> ns ! j \<noteq> gap_char"
    and new: "(\<exists>k<n. x k \<noteq> gap_char) \<or> y \<noteq> gap_char"
  shows "\<forall>j<length (ns @ [y]).
           (\<exists>k<n. map (\<lambda>k. nr ! k @ [x k]) [0..<n] ! k ! j \<noteq> gap_char) \<or>
           (ns @ [y]) ! j \<noteq> gap_char"
proof (intro allI impI)
  fix j
  assume "j < length (ns @ [y])"
  then consider "j < length ns" | "j = length ns" by fastforce
  then show "(\<exists>k<n. map (\<lambda>k. nr ! k @ [x k]) [0..<n] ! k ! j \<noteq> gap_char) \<or>
             (ns @ [y]) ! j \<noteq> gap_char"
  proof cases
    case 1
    with old have "(\<exists>k<n. nr ! k ! j \<noteq> gap_char) \<or> ns ! j \<noteq> gap_char" by blast
    then show ?thesis
    proof
      assume "\<exists>k<n. nr ! k ! j \<noteq> gap_char"
      then obtain k where "k < n" "nr ! k ! j \<noteq> gap_char" by blast
      with 1 len have "k < n \<and> map (\<lambda>k. nr ! k @ [x k]) [0..<n] ! k ! j \<noteq> gap_char"
        by (simp add: nth_append)
      then show ?thesis by blast
    next
      assume "ns ! j \<noteq> gap_char"
      with 1 show ?thesis by (simp add: nth_append)
    qed
  next
    case 2
    from new show ?thesis
    proof
      assume "\<exists>k<n. x k \<noteq> gap_char"
      then obtain k where "k < n" "x k \<noteq> gap_char" by blast
      with 2 len have "k < n \<and> map (\<lambda>k. nr ! k @ [x k]) [0..<n] ! k ! j \<noteq> gap_char"
        by (simp add: nth_append)
      then show ?thesis by blast
    next
      assume "y \<noteq> gap_char"
      with 2 show ?thesis by simp
    qed
  qed
qed

lemma fold_in_columns:
  fixes ops :: "'f float_ops"
  assumes res: "fold_in ops results str weight gap skew = Some (Inr results')"
    and rows: "\<forall>k<length results. length (results ! k) = length (results ! 0)"
  shows "length results' = length results + 1 \<and>
         (\<forall>k<length results'. length (results' ! k) = length (results' ! 0)) \<and>
         ((\<forall>j<length (results ! 0). \<exists>k<length results. results ! k ! j \<noteq> gap_char) \<and>
          gap_char \<notin> set str \<longrightarrow>
          (\<forall>j<length (results' ! 0). \<exists>k<length results'. results' ! k ! j \<noteq> gap_char))"
proof -
  define good where
    "good \<longleftrightarrow> (\<forall>j<length (results ! 0). \<exists>k<length results. results ! k ! j \<noteq> gap_char) \<and>
              gap_char \<notin> set str"
  define P :: "tb_state \<Rightarrow> bool" where
    "P = (\<lambda>(r, c, nr, ns). length nr = length results \<and>
            (\<forall>k<length results. length (nr ! k) = length ns) \<and>
            (good \<longrightarrow> (\<forall>j<length ns.
               (\<exists>k<length results. nr ! k ! j \<noteq> gap_char) \<or> ns ! j \<noteq> gap_char)))"
  have init: "P (int (length (results ! 0)), int (length str), replicate (length results) [], [])"
    by (simp add: P_def)
  have step: "P st'"
    if ok: "dirs_ok trace (length (results ! 0)) (length str)"
      and inv: "P (r, c, nr, ns)"
      and range: "0 \<le> r" "r \<le> int (length (results ! 0))" "0 \<le> c" "c \<le> int (length str)"
      and st: "traceback_step trace results str (r, c, nr, ns) = Some st'"
    for trace :: "'f TraceMatrix" and r c nr ns st'
  proof -
    from inv have len: "length nr = length results"
      and eq: "\<forall>k<length results. length (nr ! k) = length ns"
      and old: "good \<Longrightarrow> \<forall>j<length ns.
                  (\<exists>k<length results. nr ! k ! j \<noteq> gap_char) \<or> ns ! j \<noteq> gap_char"
      by (simp_all add: P_def)
    have from_str: "str ! nat (c - 1) \<noteq> gap_char" if "good" "1 \<le> c"
    proof -
      from that range have "nat (c - 1) < length str" by linarith
      then have "str ! nat (c - 1) \<in> set str" by simp
      with that show ?thesis unfolding good_def by metis
    qed
    have from_rows: "\<exists>k<length results. results ! k ! nat (r - 1) \<noteq> gap_char"
      if "good" "1 \<le> r"
    proof -
      from that range have "nat (r - 1) < length (results ! 0)" by linarith
      with that show ?thesis unfolding good_def by blast
    qed
    from ok range st show ?thesis
    proof (cases rule: traceback_step_cases)
      case diag
      have "\<forall>j<length (ns @ [str ! nat (c - 1)]).
           (\<exists>k<length results.
              map (\<lambda>k. nr ! k @ [results ! k ! nat (r - 1)]) [0..<length results] ! k ! j
                \<noteq> gap_char) \<or>
           (ns @ [str ! nat (c - 1)]) ! j \<noteq> gap_char" if "good"
        using eq old [OF that] from_str [OF that diag(2)] by (intro column_extend) blast+
      with diag eq show ?thesis
        by (simp add: P_def)
    next
      case up
      have "\<forall>j<length (ns @ [gap_char]).
           (\<exists>k<length results.
              map (\<lambda>k. nr ! k @ [results ! k ! nat (r - 1)]) [0..<length results] ! k ! j
                \<noteq> gap_char) \<or>
           (ns @ [gap_char]) ! j \<noteq> gap_char" if "good"
        using eq old [OF that] from_rows [OF that up(1)] by (intro column_extend) blast+
      with up eq show ?thesis
        by (simp add: P_def)
    next
      case left
      have "\<forall>j<length (ns @ [str ! nat (c - 1)]).
           (\<exists>k<length results.
              map (\<lambda>k. nr ! k @ [gap_char]) [0..<length results] ! k ! j \<noteq> gap_char) \<or>
           (ns @ [str ! nat (c - 1)]) ! j \<noteq> gap_char" if "good"
        using eq old [OF that] from_str [OF that left(1)] by (intro column_extend) blast+
      with left eq show ?thesis
        by (simp add: P_def)
    qed
  qed
  have "\<exists>nr ns. results' = map rev (nr @ [ns]) \<and> P (0, 0, nr, ns)"
  proof (rule fold_in_invariant [where P = P, OF res init])
    fix trace :: "'f TraceMatrix" and r c nr ns st'
    assume "dirs_ok trace (length (results ! 0)) (length str)" "P (r, c, nr, ns)"
      "0 \<le> r" "r \<le> int (length (results ! 0))" "0 \<le> c" "c \<le> int (length str)"
      "traceback_step trace results str (r, c, nr, ns) = Some st'"
    then show "P st'" by (rule step)
  qed
  then obtain nr ns where out: "results' = map rev (nr @ [ns])" and fin: "P (0, 0, nr, ns)"
    by blast
  from fin have len: "length nr = length results"
    and eq: "\<And>k. k < length results \<Longrightarrow> length (nr ! k) = length ns"
    and cols: "good \<Longrightarrow> \<forall>j<length ns.
                  (\<exists>k<length results. nr ! k ! j \<noteq> gap_char) \<or> ns ! j \<noteq> gap_char"
    by (simp_all add: P_def)
  have old_row: "results' ! k = rev (nr ! k)" if "k < length results" for k
    using that len by (simp add: out nth_append)
  have new_row: "results' ! length results = rev ns"
    using len by (simp add: out nth_append)
  have count: "length results' = length results + 1"
    using len by (simp add: out)
  have width: "length (results' ! k) = length ns" if "k < length results'" for k
  proof (cases "k < length results")
    case True
    then show ?thesis by (simp add: old_row eq)
  next
    case False
    with that count have "k = length results" by simp
    then show ?thesis by (simp add: new_row)
  qed
  have width0: "length (results' ! 0) = length ns"
    using width [of 0] count by simp
  have covered: "\<exists>k<length results'. results' ! k ! j \<noteq> gap_char"
    if "good" "j < length (results' ! 0)" for j
  proof -
    from that width0 have j: "j < length ns" by simp
    then have j': "length ns - Suc j < length ns" by simp
    with cols [OF that(1)]
    have "(\<exists>k<length results. nr ! k ! (length ns - Suc j) \<noteq> gap_char) \<or>
          ns ! (length ns - Suc j) \<noteq> gap_char"
      by blast
    then show ?thesis
    proof
      assume "\<exists>k<length results. nr ! k ! (length ns - Suc j) \<noteq> gap_char"
      then obtain k where k: "k < length results" "nr ! k ! (length ns - Suc j) \<noteq> gap_char"
        by blast
      with j have "results' ! k ! j \<noteq> gap_char"
        by (simp add: old_row rev_nth eq)
      with k count show ?thesis by (intro exI [of _ k]) simp
    next
      assume "ns ! (length ns - Suc j) \<noteq> gap_char"
      with j have "results' ! length results ! j \<noteq> gap_char"
        by (simp add: new_row rev_nth)
      with count show ?thesis by (intro exI [of _ "length results"]) simp
    qed
  qed
  from count width width0 covered show ?thesis
    unfolding good_def by simp
qed

lemma align_loop_total: "\<exists>y. align_loop ops strings weight gap skew s results = Some y"
proof (induction ops strings weight gap skew s results rule: align_loop.induct)
  case (1 ops strings weight gap skew s results)
  show ?case
  proof (cases "s < length strings")
    case False
    then show ?thesis by (subst align_loop.simps) simp
  next
    case True
    obtain y where y: "fold_in ops results (strings ! s) weight gap skew = Some y"
      using fold_in_total [of ops results "strings ! s" weight gap skew] by blast
    show ?thesis
    proof (cases y)
      case (Inl e)
      with True y show ?thesis by (subst align_loop.simps) simp
    next
      case (Inr results')
      with True y "1.IH" [of y results'] show ?thesis
        by (subst align_loop.simps) simp
    qed
  qed
qed

lemma align_loop_invariant:
  assumes "align_loop ops strings weight gap skew s results = Some (Inr final)"
    and "I s results"
    and "\<And>s results results'. I s results \<Longrightarrow> s < length strings \<Longrightarrow>
           fold_in ops results (strings ! s) weight gap skew = Some (Inr results') \<Longrightarrow>
           I (s + 1) results'"
  shows "\<exists>s'. I s' final \<and> (s' = s \<or> s' = length strings) \<and> length strings \<le> s'"
  using assms
proof (induction ops strings weight gap skew s results rule: align_loop.induct)
  case (1 ops strings weight gap skew s results)
  show ?case
  proof (cases "s < length strings")
    case False
    with "1.prems"(1) have "final = results"
      by (subst (asm) align_loop.simps) simp
    with False "1.prems"(2) show ?thesis by auto
  next
    case True
    with "1.prems"(1) obtain results' where
      round: "fold_in ops results (strings ! s) weight gap skew = Some (Inr results')"
      and rest: "align_loop ops strings weight gap skew (s + 1) results' = Some (Inr final)"
      by (subst (asm) align_loop.simps) (auto split: option.splits sum.splits)
    have next_inv: "I (s + 1) results'"
      using "1.prems"(2) True round by (rule "1.prems"(3))
    have "\<exists>s'. I s' final \<and> (s' = s + 1 \<or> s' = length strings) \<and> length strings \<le> s'"
    proof (rule "1.IH" [OF True round refl rest next_inv])
      fix t rs rs'
      assume "I t rs" "t < length strings"
        "fold_in ops rs (strings ! t) weight gap skew = Some (Inr rs')"
      then show "I (t + 1) rs'" by (rule "1.prems"(3))
    qed
    then obtain s' where "I s' final" "s' = s + 1 \<or> s' = length strings" "length strings \<le> s'"
      by auto
    with True show ?thesis by (intro exI [of _ s']) auto
  qed
qed

lemma align_all_invariant:
  assumes res: "align_all ops strings weight gap skew = Some (Inr final)"
    and init: "I 1 [strings ! 0]"
    and step: "\<And>s results results'. I s results \<Longrightarrow> s < length strings \<Longrightarrow>
           fold_in ops results (strings ! s) weight gap skew = Some (Inr results') \<Longrightarrow>
           I (s + 1) results'"
  shows "strings \<noteq> [] \<and> I (length strings) final"
proof -
  from res have nonempty: "1 \<le> length strings"
    by (cases strings) (auto simp: align_all_def)
  with res have loop: "align_loop ops strings weight gap skew 1 [strings ! 0] = Some (Inr final)"
    by (auto simp: align_all_def split: if_splits)
  have "\<exists>s'. I s' final \<and> (s' = 1 \<or> s' = length strings) \<and> length strings \<le> s'"
  proof (rule align_loop_invariant [where I = I, OF loop init])
    fix t rs rs'
    assume "I t rs" "t < length strings"
      "fold_in ops rs (strings ! t) weight gap skew = Some (Inr rs')"
    then show "I (t + 1) rs'" by (rule step)
  qed
  then obtain s' where "I s' final" "s' = 1 \<or> s' = length strings" "length strings \<le> s'"
    by blast
  with nonempty have "I (length strings) final" by (cases "s' = 1") auto
  with nonempty show ?thesis by auto
qed

section \<open>Properties of the alignment\<close>

lemma align_all_nonempty:
  "align_all ops strings weight gap skew = Some (Inr result) \<Longrightarrow> 1 \<le> length strings"
  by (cases strings) (auto simp: align_all_def)

lemma align_all_total: "\<exists>y. align_all ops strings weight gap skew = Some y"
  using align_loop_total [of ops strings weight gap skew 1 "[strings ! 0]"]
  by (simp add: align_all_def)

lemma align_all_without_gaps:
  assumes res: "align_all ops strings weight gap skew = Some (Inr result)"
  shows "length result = length strings \<and>
         (\<forall>k<length strings. without_gaps (result ! k) = without_gaps (strings ! k))"
proof -
  define I where
    "I = (\<lambda>s results. length results = s \<and>
            (\<forall>k < s. length (results ! k) = length (results ! 0)) \<and>
            (\<forall>k < s. without_gaps (results ! k) = without_gaps (strings ! k)))"
  have init: "I 1 [strings ! 0]"
    by (simp add: I_def)
  have step: "I (s + 1) results'"
    if inv: "I s results" and "s < length strings"
      and round: "fold_in ops results (strings ! s) weight gap skew = Some (Inr results')"
    for s results results'
  proof -
    from inv have len: "length results = s"
      and rows_s: "\<forall>k < s. length (results ! k) = length (results ! 0)"
      and old: "\<And>k. k < s \<Longrightarrow> without_gaps (results ! k) = without_gaps (strings ! k)"
      unfolding I_def by blast+
    have rows: "\<forall>k<length results. length (results ! k) = length (results ! 0)"
      unfolding len by (rule rows_s)
    note gaps = fold_in_without_gaps [OF round rows, unfolded len]
    from gaps have count: "length results' = s + 1"
      and kept: "\<And>k. k < s \<Longrightarrow> without_gaps (results' ! k) = without_gaps (results ! k)"
      and added: "without_gaps (results' ! s) = without_gaps (strings ! s)"
      by blast+
    have rows': "\<forall>k < s + 1. length (results' ! k) = length (results' ! 0)"
      by (rule fold_in_columns [OF round rows, THEN conjunct2, THEN conjunct1, unfolded count])
    have "without_gaps (results' ! k) = without_gaps (strings ! k)" if "k < s + 1" for k
    proof (cases "k = s")
      case True
      with added show ?thesis by simp
    next
      case False
      with that have "k < s" by simp
      with kept [of k] old [of k] show ?thesis by simp
    qed
    with count rows' show ?thesis
      unfolding I_def by blast
  qed
  have "strings \<noteq> [] \<and> I (length strings) result"
  proof (rule align_all_invariant [where I = I, OF res init])
    fix t rs rs'
    assume "I t rs" "t < length strings"
      "fold_in ops rs (strings ! t) weight gap skew = Some (Inr rs')"
    then show "I (t + 1) rs'" by (rule step)
  qed
  then show ?thesis
    unfolding I_def by blast
qed

lemma without_gaps_id: "gap_char \<notin> set str \<Longrightarrow> without_gaps str = str"
  unfolding without_gaps_def by (rule filter_True) auto

text \<open>
  C9 (rows are the inputs with gaps inserted). When no input string contains the gap
  marker and \<^const>\<open>align_all\<close> returns an alignment, the alignment has one row for each
  input string, in the order of the input, and deleting the gap markers from row \<open>k\<close>
  gives the \<open>k\<close>-th input string.
\<close>

theorem align_all_rows_are_inputs:
  assumes "align_all ops strings weight gap skew = Some (Inr result)"
    and "\<forall>str\<in>set strings. gap_char \<notin> set str"
  shows "length result = length strings \<and>
         (\<forall>k<length strings. without_gaps (result ! k) = strings ! k)"
proof -
  from align_all_without_gaps [OF assms(1)]
  have len: "length result = length strings"
    and rows: "\<And>k. k < length strings \<Longrightarrow>
                 without_gaps (result ! k) = without_gaps (strings ! k)"
    by blast+
  have "without_gaps (result ! k) = strings ! k" if "k < length strings" for k
  proof -
    from that have "strings ! k \<in> set strings" by simp
    with assms(2) have "gap_char \<notin> set (strings ! k)" by blast
    then show ?thesis
      using rows [OF that] by (simp add: without_gaps_id)
  qed
  with len show ?thesis by blast
qed

theorem align_all_rows_are_inputs_witness:
  "align_all int_ops [[0x41, 0x43], [0x41, 0x47, 0x43]] matrix (- 2) (- 1) =
     Some (Inr [[0x41, 0x22C4, 0x43], [0x41, 0x47, 0x43]]) \<and>
   gap_char \<notin> set [0x41, 0x43] \<and> gap_char \<notin> set [0x41, 0x47, 0x43] \<and>
   without_gaps ([[0x41, 0x22C4, 0x43], [0x41, 0x47, 0x43]] ! 0) = [0x41, 0x43] \<and>
   without_gaps ([[0x41, 0x22C4, 0x43], [0x41, 0x47, 0x43]] ! 1) = [0x41, 0x47, 0x43]"
proof -
  have run: "align_all int_ops [[0x41, 0x43], [0x41, 0x47, 0x43]] matrix (- 2) (- 1) =
     Some (Inr [[0x41, 0x22C4, 0x43], [0x41, 0x47, 0x43]])"
    by code_simp
  have clean1: "gap_char \<notin> set [0x41, 0x43]" and clean2: "gap_char \<notin> set [0x41, 0x47, 0x43]"
    by (simp_all add: gap_char_def)
  then have clean: "\<forall>str\<in>set [[0x41, 0x43], [0x41, 0x47, 0x43]]. gap_char \<notin> set str"
    by simp
  note rows = align_all_rows_are_inputs [OF run clean, THEN conjunct2, rule_format]
  have row0: "without_gaps ([[0x41, 0x22C4, 0x43], [0x41, 0x47, 0x43]] ! 0) =
      [[0x41, 0x43], [0x41, 0x47, 0x43]] ! 0"
    by (rule rows) simp
  have row1: "without_gaps ([[0x41, 0x22C4, 0x43], [0x41, 0x47, 0x43]] ! 1) =
      [[0x41, 0x43], [0x41, 0x47, 0x43]] ! 1"
    by (rule rows) simp
  from row0 have r0: "without_gaps ([[0x41, 0x22C4, 0x43], [0x41, 0x47, 0x43]] ! 0) = [0x41, 0x43]"
    by (simp only: nth_Cons_0)
  from row1 have r1: "without_gaps ([[0x41, 0x22C4, 0x43], [0x41, 0x47, 0x43]] ! 1) =
      [0x41, 0x47, 0x43]"
    by (simp only: nth_Cons_0 nth_Cons_Suc One_nat_def)
  from run clean1 clean2 r0 r1 show ?thesis
    by (intro conjI)
qed

text \<open>
  C1 (equal lengths, no column of gaps only). Every alignment that \<^const>\<open>align_all\<close> returns
  has rows of one length. When moreover no input string contains the gap marker, every
  column has a row whose character there is not the gap marker. Without that condition
  the second part fails: the single input string consisting of one gap marker is returned
  as it is.
\<close>

theorem align_all_equal_length_covered:
  assumes res: "align_all ops strings weight gap skew = Some (Inr result)"
  shows "(\<forall>k<length result. \<forall>l<length result. length (result ! k) = length (result ! l)) \<and>
         ((\<forall>str\<in>set strings. gap_char \<notin> set str) \<longrightarrow>
          (\<forall>j<length (result ! 0). \<exists>k<length result. result ! k ! j \<noteq> gap_char))"
proof -
  define good where "good \<longleftrightarrow> (\<forall>str\<in>set strings. gap_char \<notin> set str)"
  define I where
    "I = (\<lambda>s results. length results = s \<and>
            (\<forall>k < s. length (results ! k) = length (results ! 0)) \<and>
            (good \<longrightarrow> (\<forall>j<length (results ! 0). \<exists>k < s. results ! k ! j \<noteq> gap_char)))"
  from res have nonempty: "1 \<le> length strings" by (rule align_all_nonempty)
  have init: "I 1 [strings ! 0]"
  proof -
    have "strings ! 0 ! j \<noteq> gap_char" if "good" "j < length (strings ! 0)" for j
    proof -
      from nonempty have "strings ! 0 \<in> set strings" by (cases strings) simp_all
      moreover from that have "strings ! 0 ! j \<in> set (strings ! 0)" by simp
      ultimately show ?thesis using that unfolding good_def by metis
    qed
    then show ?thesis by (simp add: I_def)
  qed
  have step: "I (s + 1) results'"
    if inv: "I s results" and s: "s < length strings"
      and round: "fold_in ops results (strings ! s) weight gap skew = Some (Inr results')"
    for s results results'
  proof -
    from inv have len: "length results = s"
      and rows_s: "\<forall>k < s. length (results ! k) = length (results ! 0)"
      and cov_s: "good \<Longrightarrow> \<forall>j<length (results ! 0). \<exists>k < s. results ! k ! j \<noteq> gap_char"
      unfolding I_def by blast+
    have rows: "\<forall>k<length results. length (results ! k) = length (results ! 0)"
      unfolding len by (rule rows_s)
    have cov: "\<forall>j<length (results ! 0). \<exists>k<length results. results ! k ! j \<noteq> gap_char"
      if "good"
      unfolding len using that by (rule cov_s)
    have clean: "gap_char \<notin> set (strings ! s)" if "good"
    proof -
      from s have "strings ! s \<in> set strings" by simp
      with that show ?thesis unfolding good_def by blast
    qed
    note cols = fold_in_columns [OF round rows]
    from cols have count: "length results' = s + 1"
      unfolding len by (rule conjunct1)
    note rest = cols [THEN conjunct2, unfolded count]
    have rows': "\<forall>k < s + 1. length (results' ! k) = length (results' ! 0)"
      by (rule rest [THEN conjunct1])
    have cov': "\<forall>j<length (results' ! 0). \<exists>k < s + 1. results' ! k ! j \<noteq> gap_char" if "good"
      using rest [THEN conjunct2] cov [OF that] clean [OF that] by blast
    from count rows' cov' show ?thesis
      unfolding I_def by blast
  qed
  have "strings \<noteq> [] \<and> I (length strings) result"
  proof (rule align_all_invariant [where I = I, OF res init])
    fix t rs rs'
    assume "I t rs" "t < length strings"
      "fold_in ops rs (strings ! t) weight gap skew = Some (Inr rs')"
    then show "I (t + 1) rs'" by (rule step)
  qed
  then have len: "length result = length strings"
    and rows: "\<And>k. k < length strings \<Longrightarrow> length (result ! k) = length (result ! 0)"
    and cov: "good \<Longrightarrow> \<forall>j<length (result ! 0). \<exists>k<length strings. result ! k ! j \<noteq> gap_char"
    unfolding I_def by blast+
  have "length (result ! k) = length (result ! l)"
    if "k < length result" "l < length result" for k l
    using that rows [of k] rows [of l] by (simp only: len)
  with cov show ?thesis
    unfolding good_def len by blast
qed

theorem align_all_equal_length_covered_witness:
  "align_all int_ops [[0x41, 0x43], [0x41, 0x47, 0x43]] matrix (- 2) (- 1) =
     Some (Inr [[0x41, 0x22C4, 0x43], [0x41, 0x47, 0x43]]) \<and>
   gap_char \<notin> set [0x41, 0x43] \<and> gap_char \<notin> set [0x41, 0x47, 0x43] \<and>
   length ([[0x41, 0x22C4, 0x43], [0x41, 0x47, 0x43 :: char32_t]] ! 0) =
   length ([[0x41, 0x22C4, 0x43], [0x41, 0x47, 0x43 :: char32_t]] ! 1) \<and>
   (\<exists>k<length [[0x41, 0x22C4, 0x43], [0x41, 0x47, 0x43 :: char32_t]].
      [[0x41, 0x22C4, 0x43], [0x41, 0x47, 0x43]] ! k ! 1 \<noteq> gap_char)"
proof -
  have run: "align_all int_ops [[0x41, 0x43], [0x41, 0x47, 0x43]] matrix (- 2) (- 1) =
     Some (Inr [[0x41, 0x22C4, 0x43], [0x41, 0x47, 0x43]])"
    by code_simp
  have clean1: "gap_char \<notin> set [0x41, 0x43]" and clean2: "gap_char \<notin> set [0x41, 0x47, 0x43]"
    by (simp_all add: gap_char_def)
  then have clean: "\<forall>str\<in>set [[0x41, 0x43], [0x41, 0x47, 0x43]]. gap_char \<notin> set str"
    by simp
  note both = align_all_equal_length_covered [OF run]
  note len = both [THEN conjunct1, rule_format]
  note col = both [THEN conjunct2, THEN mp, OF clean, rule_format]
  have l: "length ([[0x41, 0x22C4, 0x43], [0x41, 0x47, 0x43 :: char32_t]] ! 0) =
      length ([[0x41, 0x22C4, 0x43], [0x41, 0x47, 0x43 :: char32_t]] ! 1)"
    by (rule len) simp_all
  have c: "\<exists>k<length [[0x41, 0x22C4, 0x43], [0x41, 0x47, 0x43 :: char32_t]].
        [[0x41, 0x22C4, 0x43], [0x41, 0x47, 0x43]] ! k ! 1 \<noteq> gap_char"
    by (rule col) simp
  from run clean1 clean2 l c show ?thesis
    by (intro conjI)
qed

theorem align_all_gap_input_counterexample:
  "align_all int_ops [[gap_char]] matrix (- 2) (- 1) = Some (Inr [[gap_char]]) \<and>
   length [[gap_char]] = 1 \<and> length ([[gap_char]] ! 0) = 1 \<and>
   [[gap_char]] ! 0 ! 0 = gap_char"
proof -
  have "align_loop int_ops [[gap_char]] matrix (- 2) (- 1) 1 [[gap_char]] =
      Some (Inr [[gap_char]])"
    by (subst align_loop.simps) simp
  then show ?thesis
    by (simp add: align_all_def)
qed

text \<open>
  C10 (termination). \<^const>\<open>align_all\<close> returns on every input, with an error or with an
  alignment. In every round whose grid is built without error: the cell \<open>(0, 0)\<close> has
  direction none, the other cells of column 0 have direction up, the other cells of
  row 0 have direction left, and every interior cell has one of the directions diagonal,
  up and left; from every position of the grid other than \<open>(0, 0)\<close> one iteration of the
  trace-back loop moves to a position of the grid whose indices are not negative, not
  greater than before, and of smaller sum; and the loop started at \<open>(R, C)\<close> reaches the
  \<^verbatim>\<open>break\<close> at \<open>(0, 0)\<close> after at most \<open>R + C\<close> iterations.
\<close>

theorem align_all_terminates:
  "(\<exists>y. align_all ops strings weight gap skew = Some y) \<and>
   (\<forall>results str trace.
      build_trace ops results str weight gap skew = Inr trace \<longrightarrow>
      dir (trace ! 0 ! 0) = dir_none \<and>
      (\<forall>r. 1 \<le> r \<and> r \<le> length (results ! 0) \<longrightarrow> dir (trace ! r ! 0) = dir_up) \<and>
      (\<forall>c. 1 \<le> c \<and> c \<le> length str \<longrightarrow> dir (trace ! 0 ! c) = dir_left) \<and>
      (\<forall>r c. 1 \<le> r \<and> r \<le> length (results ! 0) \<and> 1 \<le> c \<and> c \<le> length str \<longrightarrow>
         dir (trace ! r ! c) \<in> {dir_diag, dir_up, dir_left}) \<and>
      (\<forall>r c nr ns.
         0 \<le> r \<and> r \<le> int (length (results ! 0)) \<and> 0 \<le> c \<and> c \<le> int (length str) \<and>
         (r, c) \<noteq> (0, 0) \<longrightarrow>
         (\<exists>r' c' nr' ns'.
            traceback_step trace results str (r, c, nr, ns) = Some (r', c', nr', ns') \<and>
            0 \<le> r' \<and> r' \<le> r \<and> 0 \<le> c' \<and> c' \<le> c \<and> r' + c' < r + c)) \<and>
      (\<exists>n nr ns.
         n \<le> length (results ! 0) + length str \<and>
         traceback_iter n trace results str
           (int (length (results ! 0)), int (length str), replicate (length results) [], []) =
           Some (0, 0, nr, ns) \<and>
         traceback_step trace results str (0, 0, nr, ns) = None \<and>
         traceback trace results str
           (int (length (results ! 0)), int (length str), replicate (length results) [], []) =
           Some (0, 0, nr, ns)))"
proof (intro conjI allI impI)
  show "\<exists>y. align_all ops strings weight gap skew = Some y"
    by (rule align_all_total)
next
  fix results str and trace :: "'a TraceMatrix"
  assume build: "build_trace ops results str weight gap skew = Inr trace"
  then have ok: "dirs_ok trace (length (results ! 0)) (length str)"
    by (rule build_trace_dirs_ok)
  then show "dir (trace ! 0 ! 0) = dir_none"
    by (simp add: dirs_ok_def)
  {
    fix r
    assume "1 \<le> r \<and> r \<le> length (results ! 0)"
    with ok show "dir (trace ! r ! 0) = dir_up"
      by (simp add: dirs_ok_up)
  }
  {
    fix c
    assume "1 \<le> c \<and> c \<le> length str"
    with ok show "dir (trace ! 0 ! c) = dir_left"
      by (simp add: dirs_ok_left)
  }
  {
    fix r c
    assume "1 \<le> r \<and> r \<le> length (results ! 0) \<and> 1 \<le> c \<and> c \<le> length str"
    with ok show "dir (trace ! r ! c) \<in> {dir_diag, dir_up, dir_left}"
      by (intro dirs_ok_inside [OF ok]) simp_all
  }
  {
    fix r c :: int and nr ns
    assume "0 \<le> r \<and> r \<le> int (length (results ! 0)) \<and> 0 \<le> c \<and> c \<le> int (length str) \<and>
         (r, c) \<noteq> (0, 0)"
    then show "\<exists>r' c' nr' ns'.
            traceback_step trace results str (r, c, nr, ns) = Some (r', c', nr', ns') \<and>
            0 \<le> r' \<and> r' \<le> r \<and> 0 \<le> c' \<and> c' \<le> c \<and> r' + c' < r + c"
      by (intro traceback_step_moves [OF ok]) simp_all
  }
  have "\<exists>n nr ns. n \<le> nat (int (length (results ! 0))) + nat (int (length str)) \<and>
         traceback_iter n trace results str
           (int (length (results ! 0)), int (length str), replicate (length results) [], []) =
           Some (0, 0, nr, ns) \<and>
         traceback trace results str
           (int (length (results ! 0)), int (length str), replicate (length results) [], []) =
           Some (0, 0, nr, ns) \<and> True"
    by (rule traceback_run [where P = "\<lambda>_. True", OF ok]) simp_all
  then obtain n nr ns where "n \<le> length (results ! 0) + length str"
    "traceback_iter n trace results str
       (int (length (results ! 0)), int (length str), replicate (length results) [], []) =
       Some (0, 0, nr, ns)"
    "traceback trace results str
       (int (length (results ! 0)), int (length str), replicate (length results) [], []) =
       Some (0, 0, nr, ns)"
    by auto
  moreover have "traceback_step trace results str (0, 0, nr, ns) = None"
    using ok by (rule traceback_step_origin)
  ultimately show "\<exists>n nr ns.
         n \<le> length (results ! 0) + length str \<and>
         traceback_iter n trace results str
           (int (length (results ! 0)), int (length str), replicate (length results) [], []) =
           Some (0, 0, nr, ns) \<and>
         traceback_step trace results str (0, 0, nr, ns) = None \<and>
         traceback trace results str
           (int (length (results ! 0)), int (length str), replicate (length results) [], []) =
           Some (0, 0, nr, ns)"
    by blast
qed

theorem align_all_terminates_witness:
  "(\<exists>y. align_all int_ops [[0x41, 0x43], [0x41, 0x47, 0x43]] matrix (- 2) (- 1) = Some y) \<and>
   (\<exists>trace.
      build_trace int_ops [[0x41, 0x43]] [0x41, 0x47, 0x43] matrix (- 2) (- 1) = Inr trace \<and>
      dir (trace ! 0 ! 0) = dir_none \<and>
      (\<exists>n nr ns.
         n \<le> length ([[0x41, 0x43 :: char32_t]] ! 0) + length [0x41, 0x47, 0x43 :: char32_t] \<and>
         traceback_iter n trace [[0x41, 0x43]] [0x41, 0x47, 0x43]
           (int (length ([[0x41, 0x43 :: char32_t]] ! 0)),
            int (length [0x41, 0x47, 0x43 :: char32_t]),
            replicate (length [[0x41, 0x43 :: char32_t]]) [], []) = Some (0, 0, nr, ns) \<and>
         traceback_step trace [[0x41, 0x43]] [0x41, 0x47, 0x43] (0, 0, nr, ns) = None \<and>
         traceback trace [[0x41, 0x43]] [0x41, 0x47, 0x43]
           (int (length ([[0x41, 0x43 :: char32_t]] ! 0)),
            int (length [0x41, 0x47, 0x43 :: char32_t]),
            replicate (length [[0x41, 0x43 :: char32_t]]) [], []) = Some (0, 0, nr, ns)))"
proof -
  have "case build_trace int_ops [[0x41, 0x43]] [0x41, 0x47, 0x43] matrix (- 2) (- 1) of
          Inl e \<Rightarrow> False | Inr trace \<Rightarrow> True"
    by code_simp
  then obtain trace where
    build: "build_trace int_ops [[0x41, 0x43]] [0x41, 0x47, 0x43] matrix (- 2) (- 1) = Inr trace"
    by (cases "build_trace int_ops [[0x41, 0x43]] [0x41, 0x47, 0x43] matrix (- 2) (- 1)")
       simp_all
  note run = align_all_terminates
    [of int_ops "[[0x41, 0x43], [0x41, 0x47, 0x43]]" matrix "- 2" "- 1"]
  note round = conjunct2 [OF run, rule_format, OF build]
  note total = run [THEN conjunct1]
  note origin = round [THEN conjunct1]
  note walk = round [THEN conjunct2, THEN conjunct2, THEN conjunct2, THEN conjunct2, THEN conjunct2]
  from total build origin walk show ?thesis
    by (intro conjI exI [of _ trace])
qed

end
